theory Spec2Isabelle
  imports Main "HOL-Library.Product_Lexorder" "HOL-Library.List_Lexorder" "HOL-Library.Char_ord"
begin

section \<open>Values and errors\<close>

text \<open>
  The algorithms of \<^verbatim>\<open>main.py\<close> compute with Python integers and with
  \<^verbatim>\<open>math.inf\<close>, the initial value of every tentative distance. A number of the
  program is therefore an unbounded integer or plus infinity. Adding anything to infinity
  gives infinity, and nothing is greater than infinity; no other float ever arises, because
  weights are produced by \<^verbatim>\<open>int(w)\<close> and infinity is only ever added to and compared.
\<close>

datatype pynum = Num int | Infty

fun padd :: "pynum \<Rightarrow> pynum \<Rightarrow> pynum" where
  "padd (Num a) (Num b) = Num (a + b)"
| "padd _ _ = Infty"

fun pless :: "pynum \<Rightarrow> pynum \<Rightarrow> bool" where
  "pless (Num a) (Num b) = (a < b)"
| "pless (Num a) Infty = True"
| "pless Infty _ = False"

text \<open>Python's \<^verbatim>\<open>min(a, b)\<close> returns \<^verbatim>\<open>b\<close> when \<^verbatim>\<open>b < a\<close> and \<^verbatim>\<open>a\<close> otherwise.\<close>

definition pmin :: "pynum \<Rightarrow> pynum \<Rightarrow> pynum" where
  "pmin a b = (if pless b a then b else a)"

text \<open>
  The exceptions the four functions can raise: a dictionary lookup of a missing key, a list
  index out of range, and the \<^verbatim>\<open>ValueError\<close> that \<^verbatim>\<open>bellman_ford\<close> raises itself
  (\<^verbatim>\<open>"Grafo contem ciclo negativo."\<close>).
\<close>

datatype error = KeyError | IndexError | ValueError

type_synonym 'v edge = "'v \<times> 'v \<times> int"

text \<open>
  \<^verbatim>\<open>dist\<close> and \<^verbatim>\<open>parent\<close> are dictionaries keyed by vertex. \<^verbatim>\<open>parent\<close> holds a
  vertex or \<^verbatim>\<open>None\<close>.
\<close>

type_synonym 'v distmap = "'v \<rightharpoonup> pynum"
type_synonym 'v parentmap = "'v \<rightharpoonup> 'v option"



section \<open>Prim\<close>





definition endpoints :: "'v edge list \<Rightarrow> 'v set" where
  "endpoints edges = (\<Union>(u, v, w) \<in> set edges. {u, v})"









section \<open>Bellman-Ford\<close>

text \<open>
  The body of the inner loop, for one edge: \<^verbatim>\<open>if dist[u] + w < dist[v]: ...\<close>. Both lookups
  raise \<^verbatim>\<open>KeyError\<close> on a label that is not a key of \<^verbatim>\<open>dist\<close>.
\<close>

fun relax :: "'v distmap \<times> 'v parentmap \<times> bool \<Rightarrow> 'v edge
    \<Rightarrow> error + 'v distmap \<times> 'v parentmap \<times> bool" where
  "relax (dist, parent, updated) (u, v, w) =
     (case dist u of
        None \<Rightarrow> Inl KeyError
      | Some du \<Rightarrow>
         (case dist v of
            None \<Rightarrow> Inl KeyError
          | Some dv \<Rightarrow>
             if pless (padd du (Num w)) dv
             then Inr (dist(v \<mapsto> padd du (Num w)), parent(v \<mapsto> Some u), True)
             else Inr (dist, parent, updated)))"





section \<open>Floyd-Warshall\<close>

text \<open>
  \<^verbatim>\<open>pos = {v: i for i, v in enumerate(vertices)}\<close>: a later occurrence of a label
  overwrites an earlier one.
\<close>

definition mk_pos :: "'v list \<Rightarrow> ('v \<rightharpoonup> nat)" where
  "mk_pos vertices = fold (\<lambda>(i, v) m. m(v \<mapsto> i)) (enumerate 0 vertices) Map.empty"

text \<open>
  The matrices are lists of rows. Every index the function uses is a value of \<^verbatim>\<open>pos\<close>
  or comes from \<^verbatim>\<open>range(n)\<close>, hence is below \<^verbatim>\<open>n\<close>: no index is out of range.
\<close>

definition mat_set :: "'a list list \<Rightarrow> nat \<Rightarrow> nat \<Rightarrow> 'a \<Rightarrow> 'a list list" where
  "mat_set m i j x = m[i := (m ! i)[j := x]]"

type_synonym 'v fwstate = "pynum list list \<times> 'v option list list"

fun init_diag :: "('v \<rightharpoonup> nat) \<Rightarrow> 'v fwstate \<Rightarrow> 'v list \<Rightarrow> error + 'v fwstate" where
  "init_diag pos st [] = Inr st"
| "init_diag pos (dist, next_node) (v # vs) =
     (case pos v of
        None \<Rightarrow> Inl KeyError
      | Some i \<Rightarrow>
          init_diag pos (mat_set dist i i (Num 0), mat_set next_node i i (Some v)) vs)"

fun init_edges :: "('v \<rightharpoonup> nat) \<Rightarrow> 'v fwstate \<Rightarrow> 'v edge list \<Rightarrow> error + 'v fwstate" where
  "init_edges pos st [] = Inr st"
| "init_edges pos (dist, next_node) ((u, v, w) # es) =
     (case pos u of
        None \<Rightarrow> Inl KeyError
      | Some i \<Rightarrow>
         (case pos v of
            None \<Rightarrow> Inl KeyError
          | Some j \<Rightarrow>
              init_edges pos
                (mat_set dist i j (pmin (dist ! i ! j) (Num w)),
                 mat_set next_node i j (Some v)) es))"

definition fw_cell :: "nat \<Rightarrow> nat \<Rightarrow> nat \<Rightarrow> 'v fwstate \<Rightarrow> 'v fwstate" where
  "fw_cell k i j st =
     (case st of (dist, next_node) \<Rightarrow>
        if pless (padd (dist ! i ! k) (dist ! k ! j)) (dist ! i ! j)
        then (mat_set dist i j (padd (dist ! i ! k) (dist ! k ! j)),
              mat_set next_node i j (next_node ! i ! k))
        else (dist, next_node))"

definition fw_row :: "nat \<Rightarrow> nat \<Rightarrow> nat \<Rightarrow> 'v fwstate \<Rightarrow> 'v fwstate" where
  "fw_row n k i st = fold (fw_cell k i) [0..<n] st"

definition fw_phase :: "nat \<Rightarrow> nat \<Rightarrow> 'v fwstate \<Rightarrow> 'v fwstate" where
  "fw_phase n k st = fold (fw_row n k) [0..<n] st"

definition fw_loop :: "nat \<Rightarrow> 'v fwstate \<Rightarrow> 'v fwstate" where
  "fw_loop n st = fold (fw_phase n) [0..<n] st"

definition floyd_warshall :: "'v list \<Rightarrow> 'v edge list
    \<Rightarrow> error + pynum list list \<times> ('v \<rightharpoonup> nat) \<times> 'v option list list" where
  "floyd_warshall vertices edges =
     (let n = length vertices;
          pos = mk_pos vertices;
          dist = replicate n (replicate n Infty);
          next_node = replicate n (replicate n None)
      in case init_diag pos (dist, next_node) vertices of
           Inl x \<Rightarrow> Inl x
         | Inr st0 \<Rightarrow>
            (case init_edges pos st0 edges of
               Inl x \<Rightarrow> Inl x
             | Inr st \<Rightarrow>
                (case fw_loop n st of (dist', next_node') \<Rightarrow> Inr (dist', pos, next_node'))))"

section \<open>Path reconstruction\<close>

text \<open>
  \<^verbatim>\<open>next_node[pos[u]][pos[v]]\<close> on arbitrary arguments: \<^verbatim>\<open>pos[u]\<close> is looked up and
  the row fetched before \<^verbatim>\<open>pos[v]\<close> is looked up.
\<close>

definition next_at :: "('v \<rightharpoonup> nat) \<Rightarrow> 'v option list list \<Rightarrow> 'v \<Rightarrow> 'v \<Rightarrow> error + 'v option" where
  "next_at pos next_node u v =
     (case pos u of
        None \<Rightarrow> Inl KeyError
      | Some i \<Rightarrow>
          if length next_node \<le> i then Inl IndexError
          else (case pos v of
                  None \<Rightarrow> Inl KeyError
                | Some j \<Rightarrow>
                    if length (next_node ! i) \<le> j then Inl IndexError
                    else Inr (next_node ! i ! j)))"

text \<open>
  The \<^verbatim>\<open>while u != v\<close> loop. It has no bound and no visited set, so it may run forever:
  the result is an option, and \<open>None\<close> means that the loop does not return. When the
  successor read is \<^verbatim>\<open>None\<close>, it is appended and the next iteration raises
  \<^verbatim>\<open>KeyError\<close> at \<^verbatim>\<open>pos[None]\<close>.
\<close>

partial_function (option) walk :: "('v \<rightharpoonup> nat) \<Rightarrow> 'v option list list \<Rightarrow> 'v \<Rightarrow> 'v \<Rightarrow> 'v list
    \<Rightarrow> (error + 'v list) option" where
  "walk pos next_node v u path =
     (if u = v then Some (Inr path)
      else (case next_at pos next_node u v of
              Inl x \<Rightarrow> Some (Inl x)
            | Inr None \<Rightarrow> Some (Inl KeyError)
            | Inr (Some u') \<Rightarrow> walk pos next_node v u' (path @ [u'])))"

definition reconstruct_path :: "'v \<Rightarrow> 'v \<Rightarrow> 'v list \<Rightarrow> ('v \<rightharpoonup> nat) \<Rightarrow> 'v option list list
    \<Rightarrow> (error + 'v list) option" where
  "reconstruct_path u v vertices pos next_node =
     (case next_at pos next_node u v of
        Inl x \<Rightarrow> Some (Inl x)
      | Inr None \<Rightarrow> Some (Inr [])
      | Inr (Some _) \<Rightarrow> walk pos next_node v u [u])"

declare walk.simps [code]

section \<open>The caller's guard\<close>


section \<open>Graphs, walks and weights\<close>

text \<open>
  The invariants of the data model: the vertex list has no duplicates and every edge joins
  two vertices of the list.
\<close>

definition wf_graph :: "'v list \<Rightarrow> 'v edge list \<Rightarrow> bool" where
  "wf_graph vertices edges = (distinct vertices \<and> endpoints edges \<subseteq> set vertices)"

text \<open>
  A walk is a list of edges of the graph, each starting where the one before ends; its
  weight is the sum of the weights of its edges. Parallel edges are different edges, so
  that a walk says which of them it takes.
\<close>

fun chain :: "'v \<Rightarrow> 'v edge list \<Rightarrow> 'v \<Rightarrow> bool" where
  "chain s [] t = (s = t)"
| "chain s ((a, b, w) # p) t = (a = s \<and> chain b p t)"

definition weight :: "'v edge list \<Rightarrow> int" where
  "weight p = sum_list (map (\<lambda>(a, b, w). w) p)"

definition is_walk :: "'v edge list \<Rightarrow> 'v \<Rightarrow> 'v edge list \<Rightarrow> 'v \<Rightarrow> bool" where
  "is_walk edges s p t = (set p \<subseteq> set edges \<and> chain s p t)"

text \<open>The vertices of a walk from \<open>s\<close>, in order; the walk is simple when none repeats.\<close>

definition visited :: "'v \<Rightarrow> 'v edge list \<Rightarrow> 'v list" where
  "visited s p = s # map (\<lambda>(a, b, w). b) p"


definition reachable :: "'v edge list \<Rightarrow> 'v \<Rightarrow> 'v \<Rightarrow> bool" where
  "reachable edges s t = (\<exists>p. is_walk edges s p t)"



definition neg_cycle :: "'v edge list \<Rightarrow> bool" where
  "neg_cycle edges = (\<exists>c x. is_walk edges x c x \<and> weight c < 0)"

section \<open>Invariants of Bellman-Ford\<close>





section \<open>Matrices of Floyd-Warshall\<close>

text \<open>An \<open>n\<close> by \<open>n\<close> matrix, as a list of rows.\<close>

definition square :: "nat \<Rightarrow> 'a list list \<Rightarrow> bool" where
  "square n m = (length m = n \<and> (\<forall>r \<in> set m. length r = n))"

text \<open>
  The invariant behind the no-path test of \<^verbatim>\<open>reconstruct_path\<close>: a successor is recorded
  exactly where the distance is finite.
\<close>

definition next_iff_finite :: "nat \<Rightarrow> 'v fwstate \<Rightarrow> bool" where
  "next_iff_finite n st =
     (case st of (dist, next_node) \<Rightarrow>
        square n dist \<and> square n next_node \<and>
        (\<forall>i < n. \<forall>j < n. (next_node ! i ! j = None) = (dist ! i ! j = Infty)))"

text \<open>The order on numbers, written with the program's own comparison.\<close>

definition ple :: "pynum \<Rightarrow> pynum \<Rightarrow> bool" where
  "ple a b = (\<not> pless b a)"

text \<open>A state whose distances are cell by cell at most those of a given matrix.\<close>

definition below :: "nat \<Rightarrow> pynum list list \<Rightarrow> 'v fwstate \<Rightarrow> bool" where
  "below n d0 st = (next_iff_finite n st \<and> (\<forall>a < n. \<forall>b < n. ple (fst st ! a ! b) (d0 ! a ! b)))"

section \<open>What a returning walk has visited\<close>


section \<open>Numbers as an ordered monoid\<close>

text \<open>
  For the proofs, the numbers of the program carry the usual notation: \<open>+\<close> is
  \<^verbatim>\<open>+\<close> of the program, \<open><\<close> its comparison, and \<open>0\<close> the integer zero.
\<close>

instantiation pynum :: "{comm_monoid_add, linorder}"
begin

definition zero_pynum :: pynum where "zero_pynum = Num 0"
definition plus_pynum :: "pynum \<Rightarrow> pynum \<Rightarrow> pynum" where "plus_pynum a b = padd a b"
definition less_eq_pynum :: "pynum \<Rightarrow> pynum \<Rightarrow> bool" where "less_eq_pynum a b = ple a b"
definition less_pynum :: "pynum \<Rightarrow> pynum \<Rightarrow> bool" where "less_pynum a b = pless a b"

instance
proof
  fix a b c :: pynum
  show "a + b + c = a + (b + c)"
    by (cases a; cases b; cases c) (simp_all add: plus_pynum_def)
  show "a + b = b + a"
    by (cases a; cases b) (simp_all add: plus_pynum_def)
  show "0 + a = a"
    by (cases a) (simp_all add: plus_pynum_def zero_pynum_def)
  show "(a < b) = (a \<le> b \<and> \<not> b \<le> a)"
    by (cases a; cases b) (auto simp: less_pynum_def less_eq_pynum_def ple_def)
  show "a \<le> a"
    by (cases a) (simp_all add: less_eq_pynum_def ple_def)
  show "a \<le> b \<Longrightarrow> b \<le> c \<Longrightarrow> a \<le> c"
    by (cases a; cases b; cases c) (simp_all add: less_eq_pynum_def ple_def)
  show "a \<le> b \<Longrightarrow> b \<le> a \<Longrightarrow> a = b"
    by (cases a; cases b) (simp_all add: less_eq_pynum_def ple_def)
  show "a \<le> b \<or> b \<le> a"
    by (cases a; cases b) (auto simp: less_eq_pynum_def ple_def)
qed

end

instance pynum :: ordered_ab_semigroup_add
proof
  fix a b c :: pynum
  show "a \<le> b \<Longrightarrow> c + a \<le> c + b"
    by (cases a; cases b; cases c) (simp_all add: less_eq_pynum_def ple_def plus_pynum_def)
qed

section \<open>Invariants of Floyd-Warshall\<close>

text \<open>
  The least weight of an edge from \<open>a\<close> to \<open>b\<close>, infinity when there is none, and the
  weight of a sequence of vertices: the sum over its consecutive pairs.
\<close>

definition pair_weight :: "'v edge list \<Rightarrow> 'v \<Rightarrow> 'v \<Rightarrow> pynum" where
  "pair_weight edges a b =
     fold (\<lambda>(u, v, w) m. if u = a \<and> v = b then pmin m (Num w) else m) edges Infty"

fun path_weight :: "'v edge list \<Rightarrow> 'v list \<Rightarrow> pynum" where
  "path_weight edges (a # b # r) = padd (pair_weight edges a b) (path_weight edges (b # r))"
| "path_weight edges _ = Num 0"

text \<open>The test of the innermost loop body at cell \<open>(i, j)\<close> in phase \<open>k\<close>.\<close>

definition improves :: "pynum list list \<Rightarrow> nat \<Rightarrow> nat \<Rightarrow> nat \<Rightarrow> bool" where
  "improves d k i j = pless (padd (d ! i ! k) (d ! k ! j)) (d ! i ! j)"

text \<open>
  \<open>phase_of n k seen st st'\<close>: the state \<open>st'\<close> is \<open>st\<close> with the cells in \<open>seen\<close>
  updated as phase \<open>k\<close> updates them, from the values of \<open>st\<close>.
\<close>

definition phase_of :: "nat \<Rightarrow> nat \<Rightarrow> (nat \<Rightarrow> nat \<Rightarrow> bool) \<Rightarrow> 'v fwstate \<Rightarrow> 'v fwstate \<Rightarrow> bool" where
  "phase_of n k seen st st' =
     (case st of (d, nx) \<Rightarrow> case st' of (d', nx') \<Rightarrow>
        square n d' \<and> square n nx' \<and>
        (\<forall>i < n. \<forall>j < n.
           d' ! i ! j = (if seen i j \<and> improves d k i j
                         then padd (d ! i ! k) (d ! k ! j) else d ! i ! j) \<and>
           nx' ! i ! j = (if seen i j \<and> improves d k i j then nx ! i ! k else nx ! i ! j)))"

text \<open>
  The invariant after \<open>k\<close> phases, on a graph without negative cycles: finite entries are
  weights of walks; an entry is at most the weight of every edge between its vertices; the
  diagonal is zero; the triangle inequality holds through the first \<open>k\<close> vertices; and the
  successor of a finite entry is the head of an edge, of least weight among its parallels,
  that starts a walk of the recorded distance, nearer to the target in a count \<open>h\<close> of
  hops.
\<close>

definition fw_sound :: "'v list \<Rightarrow> 'v edge list \<Rightarrow> pynum list list \<Rightarrow> bool" where
  "fw_sound vs es d =
     (\<forall>i < length vs. \<forall>j < length vs. \<forall>x. d ! i ! j = Num x \<longrightarrow>
        (\<exists>p. is_walk es (vs ! i) p (vs ! j) \<and> weight p = x))"

definition fw_edges :: "'v list \<Rightarrow> 'v edge list \<Rightarrow> pynum list list \<Rightarrow> bool" where
  "fw_edges vs es d =
     (\<forall>i < length vs. \<forall>j < length vs. \<forall>w. (vs ! i, vs ! j, w) \<in> set es \<longrightarrow>
        ple (d ! i ! j) (Num w))"

definition fw_diag :: "nat \<Rightarrow> pynum list list \<Rightarrow> bool" where
  "fw_diag n d = (\<forall>i < n. d ! i ! i = Num 0)"

definition fw_tri :: "nat \<Rightarrow> nat \<Rightarrow> pynum list list \<Rightarrow> bool" where
  "fw_tri n k d =
     (\<forall>i < n. \<forall>j < n. \<forall>l < k. ple (d ! i ! j) (padd (d ! i ! l) (d ! l ! j)))"

definition fw_next :: "'v list \<Rightarrow> 'v edge list \<Rightarrow> nat \<Rightarrow> (nat \<Rightarrow> nat \<Rightarrow> nat) \<Rightarrow> 'v fwstate \<Rightarrow> bool" where
  "fw_next vs es k h st =
     (case st of (d, nx) \<Rightarrow>
        (\<forall>i < length vs. \<forall>j < length vs. i \<noteq> j \<and> d ! i ! j \<noteq> Infty \<longrightarrow>
           (\<exists>m < length vs. nx ! i ! j = Some (vs ! m) \<and> (m = j \<or> m < k) \<and>
              d ! i ! j = padd (pair_weight es (vs ! i) (vs ! m)) (d ! m ! j) \<and>
              h m j < h i j)))"

definition fw_inv :: "'v list \<Rightarrow> 'v edge list \<Rightarrow> nat \<Rightarrow> 'v fwstate \<Rightarrow> bool" where
  "fw_inv vs es k st =
     (case st of (d, nx) \<Rightarrow>
        square (length vs) d \<and> square (length vs) nx \<and>
        fw_sound vs es d \<and> fw_edges vs es d \<and> fw_diag (length vs) d \<and>
        fw_tri (length vs) k d \<and> (\<exists>h. fw_next vs es k h (d, nx)))"

section \<open>Undirected graphs and spanning trees\<close>

text \<open>
  An undirected edge may be walked in both directions: \<open>both_ways T\<close> holds every edge of \<open>T\<close>
  and its reverse. An undirected graph given as an expanded edge list holds the reverse of
  each of its edges, and it is connected when every vertex can be reached from the first.
\<close>

definition swap_edge :: "'v edge \<Rightarrow> 'v edge" where
  "swap_edge e = (case e of (a, b, w) \<Rightarrow> (b, a, w))"

definition both_ways :: "'v edge list \<Rightarrow> 'v edge list" where
  "both_ways T = T @ map swap_edge T"

definition symmetric :: "'v edge list \<Rightarrow> bool" where
  "symmetric edges = (\<forall>e \<in> set edges. swap_edge e \<in> set edges)"

definition connected_graph :: "'v list \<Rightarrow> 'v edge list \<Rightarrow> bool" where
  "connected_graph vertices edges = (\<forall>v \<in> set vertices. reachable edges (hd vertices) v)"

text \<open>
  A spanning tree of a graph with \<open>n\<close> vertices: \<open>n - 1\<close> edges of the graph that, walked
  in either direction, join every vertex to the first. (Edges that connect \<open>n\<close> vertices
  and are only \<open>n - 1\<close> form no cycle.) Its weight is the sum of the weights of its edges.
\<close>

definition spans :: "'v list \<Rightarrow> 'v edge list \<Rightarrow> bool" where
  "spans vertices T = (\<forall>v \<in> set vertices. reachable (both_ways T) (hd vertices) v)"

definition spanning_tree :: "'v list \<Rightarrow> 'v edge list \<Rightarrow> 'v edge list \<Rightarrow> bool" where
  "spanning_tree vertices edges T =
     (set T \<subseteq> set edges \<and> length T = length vertices - 1 \<and> spans vertices T)"

section \<open>Prim: the precondition is the caller's\<close>



section \<open>Bellman-Ford: basic facts\<close>





section \<open>Bellman-Ford: a source outside the graph\<close>




section \<open>Floyd-Warshall: positions and matrix updates\<close>

lemma mk_pos_snoc: "mk_pos (vs @ [v]) = (mk_pos vs)(v \<mapsto> length vs)"
  by (simp add: mk_pos_def enumerate_append_eq)

lemma mk_pos_Some: "mk_pos vs v = Some i \<Longrightarrow> i < length vs \<and> vs ! i = v"
proof (induction vs arbitrary: i rule: rev_induct)
  case Nil
  then show ?case by (simp add: mk_pos_def)
next
  case (snoc x xs)
  then show ?case
    by (auto simp: mk_pos_snoc nth_append split: if_splits)
qed

lemma mk_pos_Nil: "mk_pos [] = Map.empty"
  by (simp add: mk_pos_def)

lemma mk_pos_dom: "(mk_pos vs v \<noteq> None) = (v \<in> set vs)"
  by (induction vs rule: rev_induct) (simp_all add: mk_pos_snoc mk_pos_Nil)

lemma mk_pos_distinct: "distinct vs \<Longrightarrow> i < length vs \<Longrightarrow> mk_pos vs (vs ! i) = Some i"
proof -
  assume d: "distinct vs" and i: "i < length vs"
  then have "vs ! i \<in> set vs" by simp
  then obtain j where j: "mk_pos vs (vs ! i) = Some j"
    using mk_pos_dom[of vs "vs ! i"] by auto
  from mk_pos_Some[OF j] d i have "j = i"
    by (auto simp: nth_eq_iff_index_eq)
  with j show ?thesis by simp
qed

lemma square_replicate: "square n (replicate n (replicate n x))"
  by (simp add: square_def)

lemma square_mat_set: "square n m \<Longrightarrow> square n (mat_set m i j x)"
proof (cases "i < length m")
  case True
  assume sq: "square n m"
  with True have "length ((m ! i)[j := x]) = n"
    by (simp add: square_def)
  with sq show ?thesis
    using set_update_subset_insert[of m i "(m ! i)[j := x]"]
    by (auto simp: square_def mat_set_def)
next
  case False
  then have "mat_set m i j x = m"
    by (simp add: mat_set_def list_update_beyond)
  then show "square n m \<Longrightarrow> ?thesis"
    by simp
qed

lemma mat_set_nth:
  "square n m \<Longrightarrow> i < n \<Longrightarrow> j < n \<Longrightarrow>
     mat_set m i j x ! a ! b = (if a = i \<and> b = j then x else m ! a ! b)"
  by (cases "i < length m") (auto simp: square_def mat_set_def nth_list_update)


section \<open>Floyd-Warshall: a successor is recorded exactly where the distance is finite\<close>

lemma init_diag_inv:
  assumes "\<And>v i. pos v = Some i \<Longrightarrow> i < n" and "next_iff_finite n st"
    and "init_diag pos st vs = Inr st'"
  shows "next_iff_finite n st'"
  using assms(2,3)
proof (induction vs arbitrary: st)
  case Nil
  then show ?case by simp
next
  case (Cons v vs)
  obtain d nx where st: "st = (d, nx)" by (cases st)
  from Cons.prems(2) obtain i where i: "pos v = Some i"
    and rest: "init_diag pos (mat_set d i i (Num 0), mat_set nx i i (Some v)) vs = Inr st'"
    by (auto simp: st split: option.splits)
  have "i < n" using assms(1) i .
  moreover from Cons.prems(1) have sq: "square n d" "square n nx"
    by (simp_all add: st next_iff_finite_def)
  ultimately have "next_iff_finite n (mat_set d i i (Num 0), mat_set nx i i (Some v))"
    using Cons.prems(1)
    by (simp add: st next_iff_finite_def square_mat_set mat_set_nth[OF sq(1)] mat_set_nth[OF sq(2)])
  from Cons.IH[OF this rest] show ?case .
qed

lemma pmin_Num_finite: "pmin x (Num w) \<noteq> Infty"
  by (cases x) (simp_all add: pmin_def)

lemma init_edges_inv:
  assumes "\<And>v i. pos v = Some i \<Longrightarrow> i < n" and "next_iff_finite n st"
    and "init_edges pos st es = Inr st'"
  shows "next_iff_finite n st'"
  using assms(2,3)
proof (induction es arbitrary: st)
  case Nil
  then show ?case by simp
next
  case (Cons e es)
  obtain d nx where st: "st = (d, nx)" by (cases st)
  obtain u v w where e: "e = (u, v, w)" by (cases e)
  from Cons.prems(2) obtain i j where i: "pos u = Some i" and j: "pos v = Some j"
    and rest: "init_edges pos (mat_set d i j (pmin (d ! i ! j) (Num w)),
        mat_set nx i j (Some v)) es = Inr st'"
    by (auto simp: st e split: option.splits)
  have ij: "i < n" "j < n" using assms(1) i j by auto
  from Cons.prems(1) have sq: "square n d" "square n nx"
    by (simp_all add: st next_iff_finite_def)
  from ij Cons.prems(1)
  have "next_iff_finite n (mat_set d i j (pmin (d ! i ! j) (Num w)), mat_set nx i j (Some v))"
    by (simp add: st next_iff_finite_def square_mat_set mat_set_nth[OF sq(1)]
        mat_set_nth[OF sq(2)] pmin_Num_finite)
  from Cons.IH[OF this rest] show ?case .
qed

lemma pless_padd_finite:
  "pless (padd a b) c \<Longrightarrow> a \<noteq> Infty \<and> b \<noteq> Infty \<and> padd a b \<noteq> Infty"
  by (cases a; cases b) simp_all

lemma fw_cell_inv:
  assumes "next_iff_finite n st" and "k < n" and "i < n" and "j < n"
  shows "next_iff_finite n (fw_cell k i j st)"
proof -
  obtain d nx where st: "st = (d, nx)" by (cases st)
  from assms(1) have sq: "square n d" "square n nx"
    by (simp_all add: st next_iff_finite_def)
  show ?thesis
  proof (cases "pless (padd (d ! i ! k) (d ! k ! j)) (d ! i ! j)")
    case True
    from pless_padd_finite[OF this] assms have "nx ! i ! k \<noteq> None"
      by (simp add: st next_iff_finite_def)
    with True pless_padd_finite[OF True] assms show ?thesis
      by (simp add: st fw_cell_def next_iff_finite_def square_mat_set
          mat_set_nth[OF sq(1)] mat_set_nth[OF sq(2)])
  next
    case False
    with assms(1) show ?thesis by (simp add: st fw_cell_def)
  qed
qed

lemma fw_loop_inv:
  assumes "next_iff_finite n st"
  shows "next_iff_finite n (fw_loop n st)"
proof -
  have row: "next_iff_finite n (fw_row n k i s)" if "next_iff_finite n s" "k < n" "i < n" for k i s
    unfolding fw_row_def
    by (rule fold_invariant[where Q = "\<lambda>j. j < n" and P = "next_iff_finite n"])
       (use that in \<open>auto intro: fw_cell_inv\<close>)
  have phase: "next_iff_finite n (fw_phase n k s)" if "next_iff_finite n s" "k < n" for k s
    unfolding fw_phase_def
    by (rule fold_invariant[where Q = "\<lambda>i. i < n" and P = "next_iff_finite n"])
       (use that in \<open>auto intro: row\<close>)
  show ?thesis
    unfolding fw_loop_def
    by (rule fold_invariant[where Q = "\<lambda>k. k < n" and P = "next_iff_finite n"])
       (use assms in \<open>auto intro: phase\<close>)
qed

lemma floyd_warshall_run:
  assumes "floyd_warshall vs es = Inr (d, pos, nx)"
  obtains st0 st where "pos = mk_pos vs"
    and "init_diag pos (replicate (length vs) (replicate (length vs) Infty),
            replicate (length vs) (replicate (length vs) None)) vs = Inr st0"
    and "init_edges pos st0 es = Inr st"
    and "fw_loop (length vs) st = (d, nx)"
  using assms
  by (auto simp: floyd_warshall_def Let_def split: sum.splits prod.splits)

lemma floyd_warshall_inv:
  assumes "floyd_warshall vs es = Inr (d, pos, nx)"
  shows "next_iff_finite (length vs) (d, nx)"
proof -
  from assms obtain st0 st where pos: "pos = mk_pos vs"
    and 0: "init_diag pos (replicate (length vs) (replicate (length vs) Infty),
            replicate (length vs) (replicate (length vs) None)) vs = Inr st0"
    and 1: "init_edges pos st0 es = Inr st"
    and 2: "fw_loop (length vs) st = (d, nx)"
    by (rule floyd_warshall_run)
  have lt: "\<And>v i. pos v = Some i \<Longrightarrow> i < length vs"
    by (simp add: pos mk_pos_Some)
  have "next_iff_finite (length vs) (replicate (length vs) (replicate (length vs) Infty),
            replicate (length vs) (replicate (length vs) (None :: 'a option)))"
    by (simp add: next_iff_finite_def square_replicate)
  from init_diag_inv[OF lt this 0] have "next_iff_finite (length vs) st0" .
  from init_edges_inv[OF lt this 1] have "next_iff_finite (length vs) st" .
  from fw_loop_inv[OF this] 2 show ?thesis by simp
qed

section \<open>Floyd-Warshall: entries only decrease\<close>

lemma ple_refl: "ple a a"
  by (cases a) (simp_all add: ple_def)

lemma ple_trans: "ple a b \<Longrightarrow> ple b c \<Longrightarrow> ple a c"
  by (cases a; cases b; cases c) (simp_all add: ple_def)

lemma ple_finite: "ple a b \<Longrightarrow> b \<noteq> Infty \<Longrightarrow> a \<noteq> Infty"
  by (cases a; cases b) (simp_all add: ple_def)

lemma ple_pmin: "ple (pmin a b) a"
  by (cases a; cases b) (simp_all add: ple_def pmin_def)

lemma pless_ple: "pless a b \<Longrightarrow> ple a b"
  by (cases a; cases b) (simp_all add: ple_def)

lemma init_edges_below:
  assumes "\<And>v i. pos v = Some i \<Longrightarrow> i < n" and "below n d0 st"
    and "init_edges pos st es = Inr st'"
  shows "below n d0 st'"
  using assms(2,3)
proof (induction es arbitrary: st)
  case Nil
  then show ?case by simp
next
  case (Cons e es)
  obtain d nx where st: "st = (d, nx)" by (cases st)
  obtain u v w where e: "e = (u, v, w)" by (cases e)
  from Cons.prems(2) obtain i j where i: "pos u = Some i" and j: "pos v = Some j"
    and rest: "init_edges pos (mat_set d i j (pmin (d ! i ! j) (Num w)),
        mat_set nx i j (Some v)) es = Inr st'"
    by (auto simp: st e split: option.splits)
  let ?st1 = "(mat_set d i j (pmin (d ! i ! j) (Num w)), mat_set nx i j (Some v))"
  have ij: "i < n" "j < n" using assms(1) i j by auto
  from Cons.prems(1) have inv: "next_iff_finite n (d, nx)" and sq: "square n d"
    and le: "\<And>a b. a < n \<Longrightarrow> b < n \<Longrightarrow> ple (d ! a ! b) (d0 ! a ! b)"
    by (simp_all add: st below_def next_iff_finite_def)
  have "init_edges pos (d, nx) [e] = Inr ?st1"
    by (simp add: e i j)
  from init_edges_inv[OF assms(1) inv this] have "next_iff_finite n ?st1" .
  moreover have "ple (fst ?st1 ! a ! b) (d0 ! a ! b)" if "a < n" "b < n" for a b
    using le[OF that] ple_trans[OF ple_pmin le[OF that]] ij
    by (auto simp: mat_set_nth[OF sq])
  ultimately have "below n d0 ?st1"
    by (simp add: below_def)
  from Cons.IH[OF this rest] show ?case .
qed

lemma fw_cell_below:
  assumes "below n d0 st" and "k < n" and "i < n" and "j < n"
  shows "below n d0 (fw_cell k i j st)"
proof -
  obtain d nx where st: "st = (d, nx)" by (cases st)
  from assms(1) have inv: "next_iff_finite n st" and sq: "square n d"
    and le: "\<And>a b. a < n \<Longrightarrow> b < n \<Longrightarrow> ple (d ! a ! b) (d0 ! a ! b)"
    by (simp_all add: st below_def next_iff_finite_def)
  have "ple (fst (fw_cell k i j st) ! a ! b) (d0 ! a ! b)" if "a < n" "b < n" for a b
  proof (cases "pless (padd (d ! i ! k) (d ! k ! j)) (d ! i ! j)")
    case True
    from ple_trans[OF pless_ple[OF True] le[OF assms(3,4)]] le[OF that] True assms(3,4)
    show ?thesis
      by (simp add: st fw_cell_def mat_set_nth[OF sq])
  next
    case False
    then show ?thesis using le[OF that] by (simp add: st fw_cell_def)
  qed
  with fw_cell_inv[OF inv assms(2-4)] show ?thesis
    by (simp add: below_def)
qed

lemma fw_loop_below:
  assumes "below n d0 st"
  shows "below n d0 (fw_loop n st)"
proof -
  have row: "below n d0 (fw_row n k i s)" if "below n d0 s" "k < n" "i < n" for k i s
    unfolding fw_row_def
    by (rule fold_invariant[where Q = "\<lambda>j. j < n" and P = "below n d0"])
       (use that in \<open>auto intro: fw_cell_below\<close>)
  have phase: "below n d0 (fw_phase n k s)" if "below n d0 s" "k < n" for k s
    unfolding fw_phase_def
    by (rule fold_invariant[where Q = "\<lambda>i. i < n" and P = "below n d0"])
       (use that in \<open>auto intro: row\<close>)
  show ?thesis
    unfolding fw_loop_def
    by (rule fold_invariant[where Q = "\<lambda>k. k < n" and P = "below n d0"])
       (use assms in \<open>auto intro: phase\<close>)
qed

lemma init_diag_sets:
  assumes "\<And>v i. pos v = Some i \<Longrightarrow> i < n" and "next_iff_finite n st"
    and "init_diag pos st vs = Inr st'"
  shows "\<forall>a < n. \<forall>b < n. fst st' ! a ! b =
     (if a = b \<and> (\<exists>v \<in> set vs. pos v = Some a) then Num 0 else fst st ! a ! b)"
  using assms(2,3)
proof (induction vs arbitrary: st)
  case Nil
  then show ?case by simp
next
  case (Cons v vs)
  obtain d nx where st: "st = (d, nx)" by (cases st)
  from Cons.prems(2) obtain i where i: "pos v = Some i"
    and rest: "init_diag pos (mat_set d i i (Num 0), mat_set nx i i (Some v)) vs = Inr st'"
    by (auto simp: st split: option.splits)
  let ?st1 = "(mat_set d i i (Num 0), mat_set nx i i (Some v))"
  have "i < n" using assms(1) i .
  from Cons.prems(1) have sq: "square n d"
    by (simp add: st next_iff_finite_def)
  have "init_diag pos (d, nx) [v] = Inr ?st1"
    by (simp add: i)
  from init_diag_inv[OF assms(1) Cons.prems(1)[unfolded st] this]
  have "next_iff_finite n ?st1" .
  from Cons.IH[OF this rest] \<open>i < n\<close> show ?case
    by (auto simp: st i mat_set_nth[OF sq])
qed





lemma floyd_warshall_diag:
  assumes "floyd_warshall vs es = Inr (d, pos, nx)" and "pos v = Some i"
  shows "i < length vs \<and> d ! i ! i \<noteq> Infty \<and> nx ! i ! i \<noteq> None"
proof -
  let ?n = "length vs"
  let ?init = "(replicate ?n (replicate ?n Infty), replicate ?n (replicate ?n (None :: 'a option)))"
  from assms(1) obtain st0 st where pos: "pos = mk_pos vs"
    and 0: "init_diag pos ?init vs = Inr st0"
    and 1: "init_edges pos st0 es = Inr st"
    and 2: "fw_loop ?n st = (d, nx)"
    by (rule floyd_warshall_run)
  have lt: "\<And>v i. pos v = Some i \<Longrightarrow> i < ?n"
    by (simp add: pos mk_pos_Some)
  have i: "i < ?n" using lt assms(2) .
  have v: "v \<in> set vs" using assms(2) mk_pos_dom[of vs v] by (simp add: pos)
  have inv: "next_iff_finite ?n ?init"
    by (simp add: next_iff_finite_def square_replicate)
  from init_diag_inv[OF lt inv 0] have inv0: "next_iff_finite ?n st0" .
  from init_diag_sets[OF lt inv 0] i v assms(2) have "fst st0 ! i ! i = Num 0"
    by auto
  have "below ?n (fst st0) st0"
    using inv0 by (simp add: below_def ple_refl)
  from init_edges_below[OF lt this 1] have "below ?n (fst st0) st" .
  from fw_loop_below[OF this] 2 have b: "below ?n (fst st0) (d, nx)" by simp
  then have "ple (d ! i ! i) (fst st0 ! i ! i)" using i by (simp add: below_def)
  with \<open>fst st0 ! i ! i = Num 0\<close> have "d ! i ! i \<noteq> Infty"
    using ple_finite by fastforce
  with b i show ?thesis
    by (simp add: below_def next_iff_finite_def)
qed

section \<open>The invariant of the two matrices\<close>

text \<open>
  C10. Whatever the input, when \<^verbatim>\<open>floyd_warshall\<close> returns, a successor is recorded at
  \<open>(i, j)\<close> exactly when the distance at \<open>(i, j)\<close> is finite; and on a vertex list
  without duplicates every diagonal entry has a successor. (The call returns whenever
  every edge joins two labels of the vertex list: \<open>floyd_warshall_total\<close>.)
\<close>

theorem floyd_warshall_next_iff_finite:
  assumes "floyd_warshall vertices edges = Inr (dist, pos, next_node)"
  shows "(\<forall>i < length vertices. \<forall>j < length vertices.
            (next_node ! i ! j \<noteq> None) = (dist ! i ! j \<noteq> Infty)) \<and>
         (distinct vertices \<longrightarrow> (\<forall>i < length vertices. next_node ! i ! i \<noteq> None))"
proof -
  from floyd_warshall_inv[OF assms]
  have "\<forall>i < length vertices. \<forall>j < length vertices.
            (next_node ! i ! j \<noteq> None) = (dist ! i ! j \<noteq> Infty)"
    by (simp add: next_iff_finite_def)
  moreover have "next_node ! i ! i \<noteq> None" if "distinct vertices" "i < length vertices" for i
  proof -
    from assms have "pos = mk_pos vertices" by (rule floyd_warshall_run)
    with mk_pos_distinct[OF that] have "pos (vertices ! i) = Some i" by simp
    from floyd_warshall_diag[OF assms this] show ?thesis by simp
  qed
  ultimately show ?thesis by blast
qed

lemma fw_run2:
  "floyd_warshall [''A'', ''B''] [(''A'', ''B'', 2)]
     = Inr ([[Num 0, Num 2], [Infty, Num 0]], mk_pos [''A'', ''B''],
            [[Some ''A'', Some ''B''], [None, Some ''B'']])"
proof -
  have p: "mk_pos [''A'', ''B''] ''A'' = Some 0" "mk_pos [''A'', ''B''] ''B'' = Some 1"
    by (simp_all add: mk_pos_def)
  show ?thesis
    by (simp add: floyd_warshall_def p mat_set_def fw_loop_def fw_phase_def fw_row_def
        fw_cell_def pmin_def upt_rec numeral_2_eq_2)
qed

theorem floyd_warshall_next_iff_finite_witness:
  "floyd_warshall [''A'', ''B''] [(''A'', ''B'', 2)]
     = Inr ([[Num 0, Num 2], [Infty, Num 0]], mk_pos [''A'', ''B''],
            [[Some ''A'', Some ''B''], [None, Some ''B'']]) \<and>
   ([[Some ''A'', Some ''B''], [None, Some ''B'']] ! 1 ! 0 \<noteq> None)
     = ([[Num 0, Num 2], [Infty, Num 0]] ! 1 ! 0 \<noteq> Infty) \<and>
   distinct [''A'', ''B''] \<and>
   [[Some ''A'', Some ''B''], [None, Some ''B'']] ! 1 ! 1 \<noteq> None"
proof -
  have run: "floyd_warshall [''A'', ''B''] [(''A'', ''B'', 2)]
     = Inr ([[Num 0, Num 2], [Infty, Num 0]], mk_pos [''A'', ''B''],
            [[Some ''A'', Some ''B''], [None, Some ''B'']])"
    by (rule fw_run2)
  from floyd_warshall_next_iff_finite[OF run] run show ?thesis
    by simp
qed


section \<open>Path reconstruction: the two trivial cases\<close>

lemma next_at_fw:
  assumes "floyd_warshall vs es = Inr (d, pos, nx)" and "pos u = Some i" and "pos v = Some j"
  shows "next_at pos nx u v = Inr (nx ! i ! j)"
proof -
  from assms(1) have pos: "pos = mk_pos vs" by (rule floyd_warshall_run)
  from assms(2,3) have "i < length vs" "j < length vs"
    by (simp_all add: pos mk_pos_Some)
  moreover from floyd_warshall_inv[OF assms(1)] have "square (length vs) nx"
    by (simp add: next_iff_finite_def)
  ultimately show ?thesis
    using assms(2,3) by (simp add: next_at_def square_def)
qed

text \<open>
  C6. On the matrices that \<^verbatim>\<open>floyd_warshall\<close> returns, the path from a vertex to
  itself is the vertex alone, and the path between two vertices is empty whenever the
  distance between them is infinite, which is exactly when no successor is recorded.
\<close>

theorem reconstruct_path_trivial:
  assumes "floyd_warshall vertices edges = Inr (dist, pos, next_node)"
  shows "(u \<in> set vertices \<longrightarrow>
            reconstruct_path u u vertices pos next_node = Some (Inr [u])) \<and>
         (\<forall>i j. pos u = Some i \<and> pos v = Some j \<and>
                 (dist ! i ! j = Infty \<or> next_node ! i ! j = None) \<longrightarrow>
            reconstruct_path u v vertices pos next_node = Some (Inr []))"
proof -
  have "reconstruct_path u u vertices pos next_node = Some (Inr [u])" if "u \<in> set vertices"
  proof -
    from assms have "pos = mk_pos vertices" by (rule floyd_warshall_run)
    with that obtain i where i: "pos u = Some i"
      using mk_pos_dom[of vertices u] by auto
    from floyd_warshall_diag[OF assms i] obtain x where "next_node ! i ! i = Some x"
      by auto
    with next_at_fw[OF assms i i] show ?thesis
      by (simp add: reconstruct_path_def walk.simps)
  qed
  moreover have "reconstruct_path u v vertices pos next_node = Some (Inr [])"
    if "pos u = Some i" "pos v = Some j" "dist ! i ! j = Infty \<or> next_node ! i ! j = None"
    for i j
  proof -
    from assms have "pos = mk_pos vertices" by (rule floyd_warshall_run)
    with that have "i < length vertices" "j < length vertices"
      by (simp_all add: mk_pos_Some)
    with floyd_warshall_inv[OF assms] that(3) have "next_node ! i ! j = None"
      by (auto simp: next_iff_finite_def)
    with next_at_fw[OF assms that(1,2)] show ?thesis
      by (simp add: reconstruct_path_def)
  qed
  ultimately show ?thesis by blast
qed

theorem reconstruct_path_trivial_witness:
  "floyd_warshall [''A'', ''B''] [(''A'', ''B'', 2)]
     = Inr ([[Num 0, Num 2], [Infty, Num 0]], mk_pos [''A'', ''B''],
            [[Some ''A'', Some ''B''], [None, Some ''B'']]) \<and>
   ''A'' \<in> set [''A'', ''B''] \<and>
   reconstruct_path ''A'' ''A'' [''A'', ''B''] (mk_pos [''A'', ''B''])
     [[Some ''A'', Some ''B''], [None, Some ''B'']] = Some (Inr [''A'']) \<and>
   mk_pos [''A'', ''B''] ''B'' = Some 1 \<and> mk_pos [''A'', ''B''] ''A'' = Some 0 \<and>
   [[Num 0, Num 2], [Infty, Num 0]] ! 1 ! 0 = Infty \<and>
   reconstruct_path ''B'' ''A'' [''A'', ''B''] (mk_pos [''A'', ''B''])
     [[Some ''A'', Some ''B''], [None, Some ''B'']] = Some (Inr [])"
proof -
  have p: "mk_pos [''A'', ''B''] ''A'' = Some 0" "mk_pos [''A'', ''B''] ''B'' = Some 1"
    by (simp_all add: mk_pos_def)
  have run: "floyd_warshall [''A'', ''B''] [(''A'', ''B'', 2)]
     = Inr ([[Num 0, Num 2], [Infty, Num 0]], mk_pos [''A'', ''B''],
            [[Some ''A'', Some ''B''], [None, Some ''B'']])"
    by (rule fw_run2)
  from reconstruct_path_trivial[OF run, of "''A''" "''A''"]
    reconstruct_path_trivial[OF run, of "''B''" "''A''"] run p
  show ?thesis by simp
qed

section \<open>Path reconstruction: the walk has no bound\<close>






lemma pos3:
  "mk_pos [''A'', ''B'', ''C''] ''A'' = Some 0"
  "mk_pos [''A'', ''B'', ''C''] ''B'' = Some 1"
  "mk_pos [''A'', ''B'', ''C''] ''C'' = Some 2"
  by (simp_all add: mk_pos_def)




section \<open>Walks\<close>

lemma chain_append: "chain s (p @ q) t = (\<exists>m. chain s p m \<and> chain m q t)"
  by (induction p arbitrary: s) auto

lemma weight_Nil: "weight [] = 0"
  by (simp add: weight_def)

lemma weight_Cons: "weight ((a, b, w) # p) = w + weight p"
  by (simp add: weight_def)

lemma weight_append: "weight (p @ q) = weight p + weight q"
  by (simp add: weight_def)

lemma is_walk_Nil: "is_walk es s [] t = (s = t)"
  by (simp add: is_walk_def)

lemma is_walk_Cons:
  "is_walk es s ((a, b, w) # p) t = ((a, b, w) \<in> set es \<and> a = s \<and> is_walk es b p t)"
  by (auto simp: is_walk_def)

lemma is_walk_append:
  "is_walk es s (p @ q) t = (\<exists>m. is_walk es s p m \<and> is_walk es m q t)"
  by (auto simp: is_walk_def chain_append)


lemma chain_last: "chain s p t \<Longrightarrow> last (visited s p) = t"
  by (induction p arbitrary: s) (auto simp: visited_def)





section \<open>Bellman-Ford: one relaxation\<close>





lemma relax_no_other_error: "relax st e \<noteq> Inl IndexError \<and> relax st e \<noteq> Inl ValueError"
  by (cases st; cases e) (auto split: option.splits)





section \<open>Bellman-Ford: one pass over the edges\<close>








section \<open>Bellman-Ford: what the passes reach\<close>








section \<open>Bellman-Ford: the result\<close>









lemma nonneg_no_neg_cycle:
  assumes "\<forall>(a, b, w) \<in> set es. 0 \<le> w"
  shows "\<not> neg_cycle es"
proof -
  have "0 \<le> weight p" if "set p \<subseteq> set es" for p
    using that assms by (induction p) (auto simp: weight_def)
  then show ?thesis
    unfolding neg_cycle_def is_walk_def by (meson not_less)
qed



section \<open>Numbers: order and addition\<close>

lemma padd_plus: "padd a b = a + b"
  by (simp add: plus_pynum_def)

lemma pless_less: "pless a b = (a < b)"
  by (simp add: less_pynum_def)

lemma ple_le: "ple a b = (a \<le> b)"
  by (simp add: less_eq_pynum_def)

lemma Num_plus [simp]: "Num a + Num b = Num (a + b)"
  by (simp add: plus_pynum_def)

lemma Infty_plus [simp]: "Infty + a = Infty" "a + Infty = Infty"
  by (cases a; simp add: plus_pynum_def)+

lemma Num_le [simp]: "(Num a \<le> Num b) = (a \<le> b)"
  by (auto simp: less_eq_pynum_def ple_def)

lemma Num_less [simp]: "(Num a < Num b) = (a < b)"
  by (simp add: less_pynum_def)

lemma le_Infty [simp]: "a \<le> Infty"
  by (cases a) (simp_all add: less_eq_pynum_def ple_def)

lemma Infty_le [simp]: "(Infty \<le> a) = (a = Infty)"
  by (cases a) (simp_all add: less_eq_pynum_def ple_def)

lemma less_Infty [simp]: "(a < Infty) = (a \<noteq> Infty)"
  by (cases a) (simp_all add: less_pynum_def)

lemma Infty_less [simp]: "\<not> Infty < a"
  by (simp add: less_pynum_def)

lemma plus_eq_Infty [simp]: "(a + b = Infty) = (a = Infty \<or> b = Infty)"
  by (cases a; cases b) simp_all

lemma zero_Num: "(0 :: pynum) = Num 0"
  by (simp add: zero_pynum_def)

lemma pmin_min: "pmin a b = min a b"
  by (auto simp: pmin_def min_def pless_less)

lemma finite_cancel_le: "c \<noteq> Infty \<Longrightarrow> (c + a \<le> c + b) = (a \<le> (b :: pynum))"
  by (cases a; cases b; cases c) simp_all

lemma finite_cancel_less: "c \<noteq> Infty \<Longrightarrow> (c + a < c + b) = (a < (b :: pynum))"
  by (cases a; cases b; cases c) simp_all

section \<open>Floyd-Warshall: a phase updates every cell from the values at its start\<close>

lemma improves_plus: "improves d k i j = (d ! i ! k + d ! k ! j < d ! i ! j)"
  by (simp add: improves_def padd_plus pless_less)

text \<open>With a zero on the diagonal at \<open>k\<close>, phase \<open>k\<close> leaves row \<open>k\<close> and column \<open>k\<close> alone.\<close>

lemma improves_rowcol:
  assumes "d ! k ! k = Num 0"
  shows "\<not> improves d k i k" and "\<not> improves d k k j"
  using assms by (simp_all add: improves_plus zero_Num[symmetric])

lemma phase_of_cong:
  assumes "\<And>i j. i < n \<Longrightarrow> j < n \<Longrightarrow> seen i j = seen' i j"
  shows "phase_of n k seen st st' = phase_of n k seen' st st'"
  using assms by (auto simp: phase_of_def split: prod.splits)

lemma fw_cell_phase:
  assumes "phase_of n k seen (d, nx) st'" and "d ! k ! k = Num 0"
    and "k < n" and "i < n" and "j < n" and "\<not> seen i j"
  shows "phase_of n k (\<lambda>a b. seen a b \<or> (a = i \<and> b = j)) (d, nx) (fw_cell k i j st')"
proof -
  obtain dc nc where st': "st' = (dc, nc)" by (cases st')
  from assms(1) have sq: "square n dc" "square n nc"
    and cells: "\<And>a b. a < n \<Longrightarrow> b < n \<Longrightarrow>
           dc ! a ! b = (if seen a b \<and> improves d k a b
                         then padd (d ! a ! k) (d ! k ! b) else d ! a ! b) \<and>
           nc ! a ! b = (if seen a b \<and> improves d k a b then nx ! a ! k else nx ! a ! b)"
    by (simp_all add: phase_of_def st')
  from cells[OF assms(4,3)] improves_rowcol(1)[OF assms(2)]
  have ik: "dc ! i ! k = d ! i ! k" "nc ! i ! k = nx ! i ! k" by simp_all
  from cells[OF assms(3,5)] improves_rowcol(2)[OF assms(2)]
  have kj: "dc ! k ! j = d ! k ! j" by simp
  from cells[OF assms(4,5)] assms(6)
  have ij: "dc ! i ! j = d ! i ! j" by simp
  have test: "pless (padd (dc ! i ! k) (dc ! k ! j)) (dc ! i ! j) = improves d k i j"
    by (simp add: ik kj ij improves_def)
  show ?thesis
  proof (cases "improves d k i j")
    case True
    with test have "fw_cell k i j st'
        = (mat_set dc i j (padd (d ! i ! k) (d ! k ! j)), mat_set nc i j (nx ! i ! k))"
      by (simp add: fw_cell_def st' ik kj)
    with True sq cells assms(4,5) show ?thesis
      by (auto simp: phase_of_def square_mat_set mat_set_nth[OF sq(1)] mat_set_nth[OF sq(2)])
  next
    case False
    with test have "fw_cell k i j st' = (dc, nc)"
      by (simp add: fw_cell_def st')
    with False sq cells show ?thesis
      by (auto simp: phase_of_def)
  qed
qed

lemma fw_row_phase:
  assumes "phase_of n k seen (d, nx) st'" and "d ! k ! k = Num 0"
    and "k < n" and "i < n" and "\<And>j. j < n \<Longrightarrow> \<not> seen i j"
  shows "phase_of n k (\<lambda>a b. seen a b \<or> a = i) (d, nx) (fw_row n k i st')"
proof -
  have "j0 \<le> n \<Longrightarrow> phase_of n k (\<lambda>a b. seen a b \<or> (a = i \<and> b < j0)) (d, nx)
      (fold (fw_cell k i) [0..<j0] st')" for j0
  proof (induction j0)
    case 0
    with assms(1) show ?case by simp
  next
    case (Suc j0)
    then have "phase_of n k (\<lambda>a b. seen a b \<or> (a = i \<and> b < j0)) (d, nx)
      (fold (fw_cell k i) [0..<j0] st')" and j0: "j0 < n"
      by simp_all
    from fw_cell_phase[OF this(1) assms(2,3,4) j0] assms(5)[OF j0]
    have "phase_of n k (\<lambda>a b. (seen a b \<or> (a = i \<and> b < j0)) \<or> (a = i \<and> b = j0)) (d, nx)
      (fw_cell k i j0 (fold (fw_cell k i) [0..<j0] st'))"
      by simp
    moreover have "((seen a b \<or> (a = i \<and> b < j0)) \<or> (a = i \<and> b = j0))
        = (seen a b \<or> (a = i \<and> b < Suc j0))" for a b
      by auto
    ultimately show ?case by simp
  qed
  from this[of n] have "phase_of n k (\<lambda>a b. seen a b \<or> (a = i \<and> b < n)) (d, nx) (fw_row n k i st')"
    by (simp add: fw_row_def)
  then show ?thesis
    by (subst phase_of_cong[where seen' = "\<lambda>a b. seen a b \<or> (a = i \<and> b < n)"]) auto
qed

lemma fw_phase_phase:
  assumes "square n d" and "square n nx" and "d ! k ! k = Num 0" and "k < n"
  shows "phase_of n k (\<lambda>a b. True) (d, nx) (fw_phase n k (d, nx))"
proof -
  have "i0 \<le> n \<Longrightarrow> phase_of n k (\<lambda>a b. a < i0) (d, nx) (fold (fw_row n k) [0..<i0] (d, nx))" for i0
  proof (induction i0)
    case 0
    with assms(1,2) show ?case by (simp add: phase_of_def)
  next
    case (Suc i0)
    then have "phase_of n k (\<lambda>a b. a < i0) (d, nx) (fold (fw_row n k) [0..<i0] (d, nx))"
      and i0: "i0 < n"
      by simp_all
    from fw_row_phase[OF this(1) assms(3,4) i0]
    have "phase_of n k (\<lambda>a b. a < i0 \<or> a = i0) (d, nx)
      (fw_row n k i0 (fold (fw_row n k) [0..<i0] (d, nx)))"
      by simp
    moreover have "(a < i0 \<or> a = i0) = (a < Suc i0)" for a by auto
    ultimately show ?case by simp
  qed
  from this[of n] have "phase_of n k (\<lambda>a b. a < n) (d, nx) (fw_phase n k (d, nx))"
    by (simp add: fw_phase_def)
  then show ?thesis
    by (subst phase_of_cong[where seen' = "\<lambda>a b. a < n"]) auto
qed

section \<open>Floyd-Warshall: a phase keeps the invariant\<close>

lemma phase_min:
  assumes "phase_of n k (\<lambda>a b. True) (d, nx) (d', nx')" and "i < n" and "j < n"
  shows "d' ! i ! j = min (d ! i ! j) (d ! i ! k + d ! k ! j)"
  using assms by (auto simp: phase_of_def improves_plus padd_plus min_def)

lemma phase_next_eq:
  assumes "phase_of n k (\<lambda>a b. True) (d, nx) (d', nx')" and "i < n" and "j < n"
  shows "nx' ! i ! j = (if improves d k i j then nx ! i ! k else nx ! i ! j)"
  using assms by (auto simp: phase_of_def)

lemma walk_join:
  assumes "is_walk es a p b" and "is_walk es b q c"
  shows "is_walk es a (p @ q) c \<and> weight (p @ q) = weight p + weight q"
  using assms by (auto simp: is_walk_append weight_append)

lemma fw_sound_sum:
  assumes "fw_sound vs es d" and "i < length vs" and "k < length vs" and "j < length vs"
    and "d ! i ! k + d ! k ! j = Num x"
  shows "\<exists>p. is_walk es (vs ! i) p (vs ! j) \<and> weight p = x"
proof -
  from assms(5) obtain a b where a: "d ! i ! k = Num a" and b: "d ! k ! j = Num b"
    and x: "x = a + b"
    by (cases "d ! i ! k"; cases "d ! k ! j") auto
  from assms(1-4) a b obtain p q where "is_walk es (vs ! i) p (vs ! k)" "weight p = a"
    "is_walk es (vs ! k) q (vs ! j)" "weight q = b"
    unfolding fw_sound_def by blast
  with walk_join[of es "vs ! i" p "vs ! k" q "vs ! j"] x show ?thesis by auto
qed

lemma phase_sound:
  assumes "phase_of (length vs) k (\<lambda>a b. True) (d, nx) (d', nx')" and "fw_sound vs es d"
    and "k < length vs"
  shows "fw_sound vs es d'"
  unfolding fw_sound_def
proof (intro allI impI)
  fix i j x
  assume i: "i < length vs" and j: "j < length vs" and x: "d' ! i ! j = Num x"
  from phase_min[OF assms(1) i j] x
  have "d ! i ! j = Num x \<or> d ! i ! k + d ! k ! j = Num x"
    by (auto simp: min_def split: if_splits)
  then show "\<exists>p. is_walk es (vs ! i) p (vs ! j) \<and> weight p = x"
  proof
    assume "d ! i ! j = Num x"
    with assms(2) i j show ?thesis unfolding fw_sound_def by blast
  next
    assume "d ! i ! k + d ! k ! j = Num x"
    from fw_sound_sum[OF assms(2) i assms(3) j this] show ?thesis .
  qed
qed

lemma phase_edges:
  assumes "phase_of (length vs) k (\<lambda>a b. True) (d, nx) (d', nx')" and "fw_edges vs es d"
  shows "fw_edges vs es d'"
  unfolding fw_edges_def
proof (intro allI impI)
  fix i j w
  assume i: "i < length vs" and j: "j < length vs" and e: "(vs ! i, vs ! j, w) \<in> set es"
  from assms(2) i j e have "d ! i ! j \<le> Num w"
    by (simp add: fw_edges_def ple_le)
  with phase_min[OF assms(1) i j] show "ple (d' ! i ! j) (Num w)"
    by (simp add: ple_le min_le_iff_disj)
qed

text \<open>Without negative cycles, no round trip between two vertices has a negative distance.\<close>

lemma round_trip_nonneg:
  assumes "\<not> neg_cycle es" and "fw_sound vs es d"
    and "i < length vs" and "k < length vs"
  shows "0 \<le> d ! i ! k + d ! k ! i"
proof (cases "d ! i ! k + d ! k ! i")
  case (Num x)
  from fw_sound_sum[OF assms(2,3,4,3) this] assms(1) have "0 \<le> x"
    unfolding neg_cycle_def by force
  with Num show ?thesis by (simp add: zero_Num)
next
  case Infty
  then show ?thesis by (simp only: le_Infty)
qed

lemma no_improve_diag:
  assumes "\<not> neg_cycle es" and "fw_sound vs es d" and "fw_diag (length vs) d"
    and "i < length vs" and "k < length vs"
  shows "\<not> improves d k i i"
  using round_trip_nonneg[OF assms(1,2,4,5)] assms(3,4)
  by (simp add: improves_plus fw_diag_def zero_Num not_less)

lemma phase_diag:
  assumes "phase_of (length vs) k (\<lambda>a b. True) (d, nx) (d', nx')"
    and "\<not> neg_cycle es" and "fw_sound vs es d" and "fw_diag (length vs) d"
    and "k < length vs"
  shows "fw_diag (length vs) d'"
  unfolding fw_diag_def
proof (intro allI impI)
  fix i assume i: "i < length vs"
  from round_trip_nonneg[OF assms(2,3) i assms(5)] assms(4) i
  have "d ! i ! i \<le> d ! i ! k + d ! k ! i"
    by (simp add: fw_diag_def zero_Num)
  with phase_min[OF assms(1) i i] assms(4) i show "d' ! i ! i = Num 0"
    by (simp add: fw_diag_def min_def)
qed

lemma phase_tri:
  assumes "phase_of n k (\<lambda>a b. True) (d, nx) (d', nx')"
    and "fw_tri n k d" and "fw_diag n d" and "k < n"
  shows "fw_tri n (Suc k) d'"
  unfolding fw_tri_def
proof (intro allI impI)
  fix i j l
  assume i: "i < n" and j: "j < n" and l: "l < Suc k"
  have tri: "d ! a ! b \<le> d ! a ! c + d ! c ! b" if "a < n" "b < n" "c < k" for a b c
    using assms(2) that by (simp add: fw_tri_def ple_le padd_plus)
  have kk: "d ! k ! k = 0" using assms(3,4) by (simp add: fw_diag_def zero_Num)
  have ik: "d' ! i ! k = d ! i ! k"
    using phase_min[OF assms(1) i assms(4)] kk by (simp add: min_def)
  have kj: "d' ! k ! j = d ! k ! j"
    using phase_min[OF assms(1) assms(4) j] kk by (simp add: min_def)
  have new: "d' ! i ! j \<le> d ! i ! k + d ! k ! j" and old: "d' ! i ! j \<le> d ! i ! j"
    using phase_min[OF assms(1) i j] by simp_all
  have "d' ! i ! j \<le> d' ! i ! l + d' ! l ! j"
  proof (cases "l = k")
    case True
    with new ik kj show ?thesis by simp
  next
    case False
    with l assms(4) have lk: "l < k" and ln: "l < n" by simp_all
    have il: "d' ! i ! l = d ! i ! l \<or> d' ! i ! l = d ! i ! k + d ! k ! l"
      using phase_min[OF assms(1) i ln] by (auto simp: min_def)
    have lj: "d' ! l ! j = d ! l ! j \<or> d' ! l ! j = d ! l ! k + d ! k ! j"
      using phase_min[OF assms(1) ln j] by (auto simp: min_def)
    have c1: "d' ! i ! j \<le> d ! i ! l + d ! l ! j"
      using old tri[OF i j lk] by (rule order_trans)
    have c2: "d' ! i ! j \<le> d ! i ! l + (d ! l ! k + d ! k ! j)"
    proof -
      have "d ! i ! k + d ! k ! j \<le> (d ! i ! l + d ! l ! k) + d ! k ! j"
        using tri[OF i assms(4) lk] by (rule add_right_mono)
      with new show ?thesis by (simp add: add.assoc)
    qed
    have c3: "d' ! i ! j \<le> (d ! i ! k + d ! k ! l) + d ! l ! j"
    proof -
      have "d ! i ! k + d ! k ! j \<le> d ! i ! k + (d ! k ! l + d ! l ! j)"
        using tri[OF assms(4) j lk] by (rule add_left_mono)
      with new show ?thesis by (simp add: add.assoc)
    qed
    have c4: "d' ! i ! j \<le> (d ! i ! k + d ! k ! l) + (d ! l ! k + d ! k ! j)"
    proof -
      have "d ! k ! k \<le> d ! k ! l + d ! l ! k"
        using tri[OF assms(4) assms(4) lk] .
      then have "d ! i ! k + d ! k ! k + d ! k ! j \<le> d ! i ! k + (d ! k ! l + d ! l ! k) + d ! k ! j"
        by (intro add_right_mono add_left_mono)
      with new kk show ?thesis by (simp add: add.assoc)
    qed
    from il lj c1 c2 c3 c4 show ?thesis by auto
  qed
  then show "ple (d' ! i ! j) (padd (d' ! i ! l) (d' ! l ! j))"
    by (simp add: ple_le padd_plus)
qed

lemma fold_pmin:
  fixes m0 :: pynum
  defines "f \<equiv> \<lambda>a b. (\<lambda>(u, v, w) m. if u = a \<and> v = b then pmin m (Num w) else m)"
  shows "fold (f a b) es m0 \<le> m0 \<and>
         (\<forall>w. (a, b, w) \<in> set es \<longrightarrow> fold (f a b) es m0 \<le> Num w) \<and>
         (fold (f a b) es m0 = m0 \<or> (\<exists>w. (a, b, w) \<in> set es \<and> fold (f a b) es m0 = Num w))"
proof (induction es arbitrary: m0)
  case Nil
  then show ?case by simp
next
  case (Cons e es)
  obtain u v w where e: "e = (u, v, w)" by (cases e)
  show ?case
  proof (cases "u = a \<and> v = b")
    case True
    then have step: "fold (f a b) (e # es) m0 = fold (f a b) es (min m0 (Num w))"
      by (simp add: f_def e pmin_min)
    let ?r = "fold (f a b) es (min m0 (Num w))"
    from Cons.IH[of "min m0 (Num w)"]
    have 1: "?r \<le> min m0 (Num w)"
      and 2: "\<And>w'. (a, b, w') \<in> set es \<Longrightarrow> ?r \<le> Num w'"
      and 3: "?r = min m0 (Num w) \<or> (\<exists>w'. (a, b, w') \<in> set es \<and> ?r = Num w')"
      by auto
    from 1 have "?r \<le> m0" "?r \<le> Num w" by simp_all
    moreover from 3 True have "?r = m0 \<or> (\<exists>w'. (a, b, w') \<in> set (e # es) \<and> ?r = Num w')"
      by (auto simp: e min_def split: if_splits)
    ultimately show ?thesis
      unfolding step using 2 True by (auto simp: e)
  next
    case False
    then have step: "fold (f a b) (e # es) m0 = fold (f a b) es m0"
      by (auto simp: f_def e)
    from Cons.IH[of m0] False show ?thesis
      unfolding step by (auto simp: e)
  qed
qed

lemma pair_weight_le: "(a, b, w) \<in> set es \<Longrightarrow> pair_weight es a b \<le> Num w"
  using fold_pmin[of a b es Infty] by (simp add: pair_weight_def)

lemma pair_weight_cases:
  "pair_weight es a b = Infty \<or> (\<exists>w. (a, b, w) \<in> set es \<and> pair_weight es a b = Num w)"
  using fold_pmin[of a b es Infty] by (simp add: pair_weight_def)

lemma fw_edges_pair_weight:
  assumes "fw_edges vs es d" and "i < length vs" and "m < length vs"
  shows "d ! i ! m \<le> pair_weight es (vs ! i) (vs ! m)"
proof -
  from pair_weight_cases[of es "vs ! i" "vs ! m"] show ?thesis
  proof
    assume "pair_weight es (vs ! i) (vs ! m) = Infty"
    then show ?thesis by simp
  next
    assume "\<exists>w. (vs ! i, vs ! m, w) \<in> set es \<and> pair_weight es (vs ! i) (vs ! m) = Num w"
    with assms show ?thesis by (auto simp: fw_edges_def ple_le)
  qed
qed


text \<open>
  The successors after phase \<open>k\<close>. Where the entry at \<open>(i, j)\<close> improves, the new
  successor is the first hop toward \<open>k\<close>, and the entry of that hop toward \<open>j\<close> improves
  too; where it does not improve, neither does the entry of its successor.
\<close>

lemma phase_next:
  assumes ph: "phase_of (length vs) k (\<lambda>a b. True) (d, nx) (d', nx')"
    and nc: "\<not> neg_cycle es" and so: "fw_sound vs es d" and ed: "fw_edges vs es d"
    and di: "fw_diag (length vs) d" and tr: "fw_tri (length vs) k d"
    and nxt: "fw_next vs es k h (d, nx)" and k: "k < length vs"
  shows "fw_next vs es (Suc k)
           (\<lambda>i j. if improves d k i j then h i k + h k j + 1 else h i j) (d', nx')"
proof -
  let ?n = "length vs"
  let ?W = "\<lambda>a b. pair_weight es (vs ! a) (vs ! b)"
  let ?h' = "\<lambda>i j. if improves d k i j then h i k + h k j + 1 else h i j"
  have tri: "d ! a ! b \<le> d ! a ! c + d ! c ! b" if "a < ?n" "b < ?n" "c < k" for a b c
    using tr that by (simp add: fw_tri_def ple_le padd_plus)
  have kk: "d ! k ! k = 0" using di k by (simp add: fw_diag_def zero_Num)
  have kkN: "d ! k ! k = Num 0" using di k by (simp add: fw_diag_def)
  have W: "d ! a ! b \<le> ?W a b" if "a < ?n" "b < ?n" for a b
    using fw_edges_pair_weight[OF ed that] .
  have N: "\<exists>m < ?n. nx ! a ! b = Some (vs ! m) \<and> (m = b \<or> m < k) \<and>
              d ! a ! b = ?W a m + d ! m ! b \<and> h m b < h a b"
    if "a < ?n" "b < ?n" "a \<noteq> b" "d ! a ! b \<noteq> Infty" for a b
    using nxt that by (simp add: fw_next_def padd_plus)
  have d'_imp: "d' ! a ! b = d ! a ! k + d ! k ! b" if "a < ?n" "b < ?n" "improves d k a b" for a b
    using phase_min[OF ph that(1,2)] that(3) by (auto simp: improves_plus min_def)
  have d'_keep: "d' ! a ! b = d ! a ! b" if "a < ?n" "b < ?n" "\<not> improves d k a b" for a b
    using phase_min[OF ph that(1,2)] that(3) by (auto simp: improves_plus min_def)
  show ?thesis
    unfolding fw_next_def prod.case
  proof (intro allI impI)
    fix i j
    assume i: "i < ?n" and j: "j < ?n" and ne: "i \<noteq> j \<and> d' ! i ! j \<noteq> Infty"
    show "\<exists>m < ?n. nx' ! i ! j = Some (vs ! m) \<and> (m = j \<or> m < Suc k) \<and>
              d' ! i ! j = padd (?W i m) (d' ! m ! j) \<and> ?h' m j < ?h' i j"
    proof (cases "improves d k i j")
      case True
      have ik: "i \<noteq> k" using True improves_rowcol(2)[OF kkN] by auto
      from True have less: "d ! i ! k + d ! k ! j < d ! i ! j" by (simp add: improves_plus)
      then have fin: "d ! i ! k \<noteq> Infty" "d ! k ! j \<noteq> Infty"
        by (cases "d ! i ! k"; cases "d ! k ! j"; simp)+
      from N[OF i k ik fin(1)] obtain m where m: "m < ?n" and nxm: "nx ! i ! k = Some (vs ! m)"
        and mk: "m = k \<or> m < k" and eq: "d ! i ! k = ?W i m + d ! m ! k" and hm: "h m k < h i k"
        by blast
      from eq fin(1) have Wfin: "?W i m \<noteq> Infty" by auto
      have imp_m: "m \<noteq> k \<Longrightarrow> improves d k m j"
      proof -
        assume "m \<noteq> k"
        with mk have "m < k" by simp
        have "d ! i ! j \<le> d ! i ! m + d ! m ! j" using tri[OF i j \<open>m < k\<close>] .
        also have "\<dots> \<le> ?W i m + d ! m ! j" using W[OF i m] by (rule add_right_mono)
        finally have "?W i m + (d ! m ! k + d ! k ! j) < ?W i m + d ! m ! j"
          using less eq by (simp add: add.assoc)
        with Wfin show "improves d k m j"
          by (simp add: finite_cancel_less improves_plus)
      qed
      have d'm: "d' ! m ! j = d ! m ! k + d ! k ! j"
      proof (cases "m = k")
        case True
        with d'_keep[OF k j improves_rowcol(2)[OF kkN]] kk show ?thesis by simp
      next
        case False
        from d'_imp[OF m j imp_m[OF False]] show ?thesis .
      qed
      have "nx' ! i ! j = Some (vs ! m)"
        using phase_next_eq[OF ph i j] True nxm by simp
      moreover have "m = j \<or> m < Suc k" using mk by auto
      moreover have "d' ! i ! j = padd (?W i m) (d' ! m ! j)"
        using d'_imp[OF i j True] eq d'm by (simp add: padd_plus add.assoc)
      moreover have "?h' m j < ?h' i j"
      proof (cases "m = k")
        case True
        with improves_rowcol(2)[OF kkN] \<open>improves d k i j\<close> show ?thesis by simp
      next
        case False
        from imp_m[OF False] \<open>improves d k i j\<close> hm show ?thesis by simp
      qed
      ultimately show ?thesis using m by blast
    next
      case False
      from d'_keep[OF i j False] ne have fin: "d ! i ! j \<noteq> Infty" by simp
      from N[OF i j _ fin] ne obtain m where m: "m < ?n" and nxm: "nx ! i ! j = Some (vs ! m)"
        and mk: "m = j \<or> m < k" and eq: "d ! i ! j = ?W i m + d ! m ! j" and hm: "h m j < h i j"
        by blast
      from eq fin have Wfin: "?W i m \<noteq> Infty" by auto
      have keep_m: "\<not> improves d k m j"
      proof (cases "m = j")
        case True
        with no_improve_diag[OF nc so di j k] show ?thesis by simp
      next
        case False
        with mk have "m < k" by simp
        show ?thesis
        proof
          assume "improves d k m j"
          then have lm: "d ! m ! k + d ! k ! j < d ! m ! j" by (simp add: improves_plus)
          have "d ! i ! k \<le> d ! i ! m + d ! m ! k" using tri[OF i k \<open>m < k\<close>] .
          also have "\<dots> \<le> ?W i m + d ! m ! k" using W[OF i m] by (rule add_right_mono)
          finally have "d ! i ! k \<le> ?W i m + d ! m ! k" .
          from add_right_mono[OF this, of "d ! k ! j"]
          have "d ! i ! k + d ! k ! j \<le> ?W i m + (d ! m ! k + d ! k ! j)"
            by (simp add: add.assoc)
          also have "\<dots> < ?W i m + d ! m ! j"
            using lm Wfin by (simp add: finite_cancel_less)
          finally have "improves d k i j" by (simp add: improves_plus eq)
          with \<open>\<not> improves d k i j\<close> show False ..
        qed
      qed
      have "nx' ! i ! j = Some (vs ! m)"
        using phase_next_eq[OF ph i j] False nxm by simp
      moreover have "m = j \<or> m < Suc k" using mk by auto
      moreover have "d' ! i ! j = padd (?W i m) (d' ! m ! j)"
        using d'_keep[OF i j False] d'_keep[OF m j keep_m] eq by (simp add: padd_plus)
      moreover have "?h' m j < ?h' i j"
        using False keep_m hm by simp
      ultimately show ?thesis using m by blast
    qed
  qed
qed

lemma fw_phase_inv:
  assumes "fw_inv vs es k st" and "\<not> neg_cycle es" and "k < length vs"
  shows "fw_inv vs es (Suc k) (fw_phase (length vs) k st)"
proof -
  obtain d nx where st: "st = (d, nx)" by (cases st)
  obtain d' nx' where st': "fw_phase (length vs) k (d, nx) = (d', nx')"
    by (cases "fw_phase (length vs) k (d, nx)")
  from assms(1) obtain h where sq: "square (length vs) d" "square (length vs) nx"
    and so: "fw_sound vs es d" and ed: "fw_edges vs es d" and di: "fw_diag (length vs) d"
    and tr: "fw_tri (length vs) k d" and nxt: "fw_next vs es k h (d, nx)"
    by (auto simp: fw_inv_def st)
  from di assms(3) have "d ! k ! k = Num 0" by (simp add: fw_diag_def)
  from fw_phase_phase[OF sq this assms(3)] st'
  have ph: "phase_of (length vs) k (\<lambda>a b. True) (d, nx) (d', nx')" by simp
  then have "square (length vs) d'" "square (length vs) nx'"
    by (simp_all add: phase_of_def)
  moreover note phase_sound[OF ph so assms(3)] phase_edges[OF ph ed]
    phase_diag[OF ph assms(2) so di assms(3)] phase_tri[OF ph tr di assms(3)]
    phase_next[OF ph assms(2) so ed di tr nxt assms(3)]
  ultimately show ?thesis
    unfolding fw_inv_def st st' prod.case by blast
qed

lemma fw_loop_inv_all:
  assumes "fw_inv vs es 0 st" and "\<not> neg_cycle es"
  shows "fw_inv vs es (length vs) (fw_loop (length vs) st)"
proof -
  have "k \<le> length vs \<Longrightarrow> fw_inv vs es k (fold (fw_phase (length vs)) [0..<k] st)" for k
  proof (induction k)
    case 0
    with assms(1) show ?case by simp
  next
    case (Suc k)
    then have "fw_inv vs es k (fold (fw_phase (length vs)) [0..<k] st)" "k < length vs"
      by simp_all
    from fw_phase_inv[OF this(1) assms(2) this(2)] show ?case by simp
  qed
  from this[of "length vs"] show ?thesis by (simp add: fw_loop_def)
qed

section \<open>Floyd-Warshall: the initial matrices\<close>

lemma init_diag_next:
  assumes "\<And>v i. pos v = Some i \<Longrightarrow> i < n \<and> vs0 ! i = v" and "next_iff_finite n st"
    and "init_diag pos st vs = Inr st'"
  shows "\<forall>a < n. \<forall>b < n. snd st' ! a ! b =
     (if a = b \<and> (\<exists>v \<in> set vs. pos v = Some a) then Some (vs0 ! a) else snd st ! a ! b)"
  using assms(2,3)
proof (induction vs arbitrary: st)
  case Nil
  then show ?case by simp
next
  case (Cons v vs)
  obtain d nx where st: "st = (d, nx)" by (cases st)
  from Cons.prems(2) obtain i where i: "pos v = Some i"
    and rest: "init_diag pos (mat_set d i i (Num 0), mat_set nx i i (Some v)) vs = Inr st'"
    by (auto simp: st split: option.splits)
  let ?st1 = "(mat_set d i i (Num 0), mat_set nx i i (Some v))"
  have lt: "\<And>v i. pos v = Some i \<Longrightarrow> i < n" using assms(1) by blast
  have "i < n" "vs0 ! i = v" using assms(1)[OF i] by simp_all
  from Cons.prems(1) have sq: "square n nx"
    by (simp add: st next_iff_finite_def)
  have "init_diag pos (d, nx) [v] = Inr ?st1"
    by (simp add: i)
  from init_diag_inv[OF lt Cons.prems(1)[unfolded st] this]
  have "next_iff_finite n ?st1" .
  from Cons.IH[OF this rest] \<open>i < n\<close> \<open>vs0 ! i = v\<close> show ?case
    by (auto simp: st i mat_set_nth[OF sq])
qed

lemma init_edges_Cons:
  assumes "init_edges pos (d, nx) ((u, v, w) # es) = Inr st'"
  obtains a b where "pos u = Some a" and "pos v = Some b"
    and "init_edges pos (mat_set d a b (pmin (d ! a ! b) (Num w)), mat_set nx a b (Some v)) es
           = Inr st'"
  using assms by (auto split: option.splits)

lemma init_edges_cells:
  assumes posI: "\<And>v i. pos v = Some i \<Longrightarrow> i < n \<and> vs ! i = v"
    and posD: "\<And>i. i < n \<Longrightarrow> pos (vs ! i) = Some i"
    and "square n d" and "square n nx" and "init_edges pos (d, nx) es = Inr (d', nx')"
  shows "square n d' \<and> square n nx' \<and>
    (\<forall>i < n. \<forall>j < n.
       d' ! i ! j = fold (\<lambda>(u, v, w) m. if u = vs ! i \<and> v = vs ! j then pmin m (Num w) else m)
                      es (d ! i ! j) \<and>
       nx' ! i ! j = (if \<exists>w. (vs ! i, vs ! j, w) \<in> set es then Some (vs ! j) else nx ! i ! j))"
  using assms(3-5)
proof (induction es arbitrary: d nx)
  case Nil
  then show ?case by simp
next
  case (Cons e es)
  obtain u v w where e: "e = (u, v, w)" by (cases e)
  from Cons.prems(3)[unfolded e] obtain a b where a: "pos u = Some a" and b: "pos v = Some b"
    and rest: "init_edges pos (mat_set d a b (pmin (d ! a ! b) (Num w)),
        mat_set nx a b (Some v)) es = Inr (d', nx')"
    by (rule init_edges_Cons)
  from posI[OF a] posI[OF b] have ab: "a < n" "b < n" and uv: "u = vs ! a" "v = vs ! b"
    by simp_all
  have inj: "(vs ! i = vs ! a) = (i = a)" if "i < n" for i
    using posD[OF that] posD[OF ab(1)] by (metis option.inject)
  have inj': "(vs ! j = vs ! b) = (j = b)" if "j < n" for j
    using posD[OF that] posD[OF ab(2)] by (metis option.inject)
  let ?d1 = "mat_set d a b (pmin (d ! a ! b) (Num w))"
  let ?nx1 = "mat_set nx a b (Some v)"
  have sq1: "square n ?d1" "square n ?nx1"
    using Cons.prems(1,2) by (simp_all add: square_mat_set)
  from Cons.IH[OF sq1 rest]
  have IH: "square n d'" "square n nx'"
    "\<And>i j. i < n \<Longrightarrow> j < n \<Longrightarrow>
       d' ! i ! j = fold (\<lambda>(u, v, w) m. if u = vs ! i \<and> v = vs ! j then pmin m (Num w) else m)
                      es (?d1 ! i ! j) \<and>
       nx' ! i ! j = (if \<exists>w. (vs ! i, vs ! j, w) \<in> set es then Some (vs ! j) else ?nx1 ! i ! j)"
    by simp_all
  show ?case
  proof (intro conjI allI impI)
    fix i j assume i: "i < n" and j: "j < n"
    from IH(3)[OF i j] ab i j inj[OF i] inj'[OF j]
    show "d' ! i ! j = fold (\<lambda>(u, v, w) m. if u = vs ! i \<and> v = vs ! j then pmin m (Num w) else m)
                      (e # es) (d ! i ! j)"
      by (auto simp: e uv mat_set_nth[OF Cons.prems(1)])
    from IH(3)[OF i j] ab i j inj[OF i] inj'[OF j]
    show "nx' ! i ! j = (if \<exists>w. (vs ! i, vs ! j, w) \<in> set (e # es) then Some (vs ! j)
                         else nx ! i ! j)"
      by (auto simp: e uv mat_set_nth[OF Cons.prems(2)])
  qed (use IH in simp_all)
qed


lemma floyd_warshall_fw_inv:
  assumes "distinct vs" and "\<not> neg_cycle es"
    and "floyd_warshall vs es = Inr (d, pos, nx)"
  shows "fw_inv vs es (length vs) (d, nx)"
proof -
  let ?n = "length vs"
  let ?init = "(replicate ?n (replicate ?n Infty), replicate ?n (replicate ?n (None :: 'a option)))"
  let ?f = "\<lambda>i j. (\<lambda>(u, v, w) m. if u = vs ! i \<and> v = vs ! j then pmin m (Num w) else m)"
  from assms(3) obtain st1 st0 where pos: "pos = mk_pos vs"
    and 1: "init_diag pos ?init vs = Inr st1"
    and 2: "init_edges pos st1 es = Inr st0"
    and 3: "fw_loop ?n st0 = (d, nx)"
    by (rule floyd_warshall_run)
  obtain d1 nx1 where st1: "st1 = (d1, nx1)" by (cases st1)
  obtain d0 nx0 where st0: "st0 = (d0, nx0)" by (cases st0)
  have posI: "\<And>v i. pos v = Some i \<Longrightarrow> i < ?n \<and> vs ! i = v"
    by (simp add: pos mk_pos_Some)
  have posD: "\<And>i. i < ?n \<Longrightarrow> pos (vs ! i) = Some i"
    by (simp add: pos mk_pos_distinct[OF assms(1)])
  have lt: "\<And>v i. pos v = Some i \<Longrightarrow> i < ?n" using posI by blast
  have inv: "next_iff_finite ?n ?init"
    by (simp add: next_iff_finite_def square_replicate)
  from init_diag_inv[OF lt inv 1] have sq1: "square ?n d1" "square ?n nx1"
    by (simp_all add: st1 next_iff_finite_def)
  have ex: "\<exists>v \<in> set vs. pos v = Some a" if "a < ?n" for a
    using posD[OF that] that by (metis nth_mem)
  have d1: "d1 ! a ! b = (if a = b then Num 0 else Infty)" if "a < ?n" "b < ?n" for a b
    using init_diag_sets[OF lt inv 1] that ex[OF that(1)] by (simp add: st1)
  have nx1: "nx1 ! a ! b = (if a = b then Some (vs ! a) else None)" if "a < ?n" "b < ?n" for a b
    using init_diag_next[OF posI inv 1] that ex[OF that(1)] by (simp add: st1)
  from init_edges_cells[OF posI posD sq1 2[unfolded st1 st0]]
  have sq0: "square ?n d0" "square ?n nx0"
    and d0: "\<And>i j. i < ?n \<Longrightarrow> j < ?n \<Longrightarrow> d0 ! i ! j = fold (?f i j) es (d1 ! i ! j)"
    and nx0: "\<And>i j. i < ?n \<Longrightarrow> j < ?n \<Longrightarrow>
        nx0 ! i ! j = (if \<exists>w. (vs ! i, vs ! j, w) \<in> set es then Some (vs ! j) else nx1 ! i ! j)"
    by simp_all
  have le1: "d0 ! i ! j \<le> d1 ! i ! j"
    and lew: "\<And>w. (vs ! i, vs ! j, w) \<in> set es \<Longrightarrow> d0 ! i ! j \<le> Num w"
    and cases: "d0 ! i ! j = d1 ! i ! j \<or> (\<exists>w. (vs ! i, vs ! j, w) \<in> set es \<and> d0 ! i ! j = Num w)"
    if "i < ?n" "j < ?n" for i j
    using fold_pmin[of "vs ! i" "vs ! j" es "d1 ! i ! j"] d0[OF that] by auto
  have offdiag: "d0 ! i ! j = pair_weight es (vs ! i) (vs ! j)" if "i < ?n" "j < ?n" "i \<noteq> j" for i j
    using d0[OF that(1,2)] d1[OF that(1,2)] that(3) by (simp add: pair_weight_def)
  have sound: "fw_sound vs es d0"
    unfolding fw_sound_def
  proof (intro allI impI)
    fix i j x assume i: "i < ?n" and j: "j < ?n" and x: "d0 ! i ! j = Num x"
    from cases[OF i j] show "\<exists>p. is_walk es (vs ! i) p (vs ! j) \<and> weight p = x"
    proof
      assume "d0 ! i ! j = d1 ! i ! j"
      with x d1[OF i j] have "i = j" "x = 0" by (auto split: if_splits)
      then have "is_walk es (vs ! i) [] (vs ! j) \<and> weight [] = x"
        by (simp add: is_walk_Nil weight_Nil)
      then show ?thesis by blast
    next
      assume "\<exists>w. (vs ! i, vs ! j, w) \<in> set es \<and> d0 ! i ! j = Num w"
      with x have "(vs ! i, vs ! j, x) \<in> set es" by auto
      then have "is_walk es (vs ! i) [(vs ! i, vs ! j, x)] (vs ! j) \<and> weight [(vs ! i, vs ! j, x)] = x"
        by (simp add: is_walk_Cons is_walk_Nil weight_Cons weight_Nil)
      then show ?thesis by blast
    qed
  qed
  have edges: "fw_edges vs es d0"
    unfolding fw_edges_def using lew by (simp add: ple_le)
  have diag: "fw_diag ?n d0"
    unfolding fw_diag_def
  proof (intro allI impI)
    fix i assume i: "i < ?n"
    from le1[OF i i] d1[OF i i] have le: "d0 ! i ! i \<le> Num 0" by simp
    from cases[OF i i] show "d0 ! i ! i = Num 0"
    proof
      assume "d0 ! i ! i = d1 ! i ! i"
      with d1[OF i i] show ?thesis by simp
    next
      assume "\<exists>w. (vs ! i, vs ! i, w) \<in> set es \<and> d0 ! i ! i = Num w"
      then obtain w where w: "(vs ! i, vs ! i, w) \<in> set es" "d0 ! i ! i = Num w" by blast
      then have "is_walk es (vs ! i) [(vs ! i, vs ! i, w)] (vs ! i)"
        by (simp add: is_walk_Cons is_walk_Nil)
      with assms(2) have "0 \<le> weight [(vs ! i, vs ! i, w)]"
        unfolding neg_cycle_def by (meson not_less)
      with le w(2) show ?thesis by (simp add: weight_Cons weight_Nil)
    qed
  qed
  have tri: "fw_tri ?n 0 d0" by (simp add: fw_tri_def)
  have "fw_next vs es 0 (\<lambda>i j. if i = j then 0 else 1) (d0, nx0)"
    unfolding fw_next_def prod.case
  proof (intro allI impI)
    fix i j
    assume i: "i < ?n" and j: "j < ?n" and ne: "i \<noteq> j \<and> d0 ! i ! j \<noteq> Infty"
    from ne offdiag[OF i j] have pw: "pair_weight es (vs ! i) (vs ! j) \<noteq> Infty" by simp
    with pair_weight_cases[of es "vs ! i" "vs ! j"]
    have "\<exists>w. (vs ! i, vs ! j, w) \<in> set es" by auto
    with nx0[OF i j] have "nx0 ! i ! j = Some (vs ! j)" by simp
    moreover from diag j have "d0 ! j ! j = Num 0" by (simp add: fw_diag_def)
    then have "d0 ! i ! j = padd (pair_weight es (vs ! i) (vs ! j)) (d0 ! j ! j)"
      using offdiag[OF i j] ne by (simp add: padd_plus zero_Num[symmetric])
    ultimately show "\<exists>m < ?n. nx0 ! i ! j = Some (vs ! m) \<and> (m = j \<or> m < 0) \<and>
        d0 ! i ! j = padd (pair_weight es (vs ! i) (vs ! m)) (d0 ! m ! j) \<and>
        (if m = j then 0 else 1) < (if i = j then 0 else (1 :: nat))"
      using j ne by auto
  qed
  with sq0 sound edges diag tri have "fw_inv vs es 0 (d0, nx0)"
    unfolding fw_inv_def prod.case by blast
  from fw_loop_inv_all[OF this assms(2)] 3 show ?thesis by (simp add: st0)
qed

section \<open>Floyd-Warshall computes the least weights\<close>





lemma fw_run3:
  "floyd_warshall [''A'', ''B'', ''C'']
     [(''A'', ''B'', 1), (''B'', ''A'', 1), (''B'', ''C'', 2), (''C'', ''B'', 2),
      (''A'', ''C'', 4), (''C'', ''A'', 4)]
   = Inr ([[Num 0, Num 1, Num 3], [Num 1, Num 0, Num 2], [Num 3, Num 2, Num 0]],
          mk_pos [''A'', ''B'', ''C''],
          [[Some ''A'', Some ''B'', Some ''B''],
           [Some ''A'', Some ''B'', Some ''C''],
           [Some ''B'', Some ''B'', Some ''C'']])"
  by (simp add: floyd_warshall_def pos3 mat_set_def fw_loop_def fw_phase_def fw_row_def
      fw_cell_def pmin_def upt_rec numeral_3_eq_3)


section \<open>Path reconstruction on the matrices of Floyd-Warshall\<close>

lemma walk_fw:
  assumes "distinct vs" and "floyd_warshall vs es = Inr (d, pos, nx)"
    and "fw_diag (length vs) d" and "fw_next vs es (length vs) h (d, nx)"
    and "j < length vs" and "i < length vs" and "d ! i ! j \<noteq> Infty"
  shows "\<exists>q. (\<forall>path. walk pos nx (vs ! j) (vs ! i) path = Some (Inr (path @ q))) \<and>
              last (vs ! i # q) = vs ! j \<and> path_weight es (vs ! i # q) = d ! i ! j"
  using assms(6,7)
proof (induction "h i j" arbitrary: i rule: less_induct)
  case less
  from assms(2) have pos: "pos = mk_pos vs" by (rule floyd_warshall_run)
  show ?case
  proof (cases "i = j")
    case True
    have "walk pos nx (vs ! j) (vs ! j) path = Some (Inr (path @ []))" for path
      by (subst walk.simps) simp
    moreover from assms(3,5) have "path_weight es [vs ! j] = d ! j ! j"
      by (simp add: fw_diag_def)
    ultimately show ?thesis using True by auto
  next
    case False
    from assms(4) less.prems assms(5) False obtain m where m: "m < length vs"
      and nxm: "nx ! i ! j = Some (vs ! m)"
      and eq: "d ! i ! j = padd (pair_weight es (vs ! i) (vs ! m)) (d ! m ! j)"
      and hm: "h m j < h i j"
      unfolding fw_next_def prod.case by blast
    from eq less.prems(2) have fin: "d ! m ! j \<noteq> Infty"
      by (auto simp: padd_plus)
    from less.hyps[OF hm m fin] obtain q
      where q: "\<And>path. walk pos nx (vs ! j) (vs ! m) path = Some (Inr (path @ q))"
        and lastq: "last (vs ! m # q) = vs ! j"
        and wq: "path_weight es (vs ! m # q) = d ! m ! j"
      by blast
    have pi: "pos (vs ! i) = Some i" and pj: "pos (vs ! j) = Some j"
      using mk_pos_distinct[OF assms(1)] less.prems(1) assms(5) by (simp_all add: pos)
    from next_at_fw[OF assms(2) pi pj] nxm
    have nxt: "next_at pos nx (vs ! i) (vs ! j) = Inr (Some (vs ! m))" by simp
    have ne: "vs ! i \<noteq> vs ! j"
      using False assms(1,5) less.prems(1) by (simp add: nth_eq_iff_index_eq)
    have "walk pos nx (vs ! j) (vs ! i) path = Some (Inr (path @ vs ! m # q))" for path
      using ne nxt q[of "path @ [vs ! m]"] by (subst walk.simps) simp
    moreover have "last (vs ! i # vs ! m # q) = vs ! j" using lastq by simp
    moreover have "path_weight es (vs ! i # vs ! m # q) = d ! i ! j"
      using eq wq by simp
    ultimately show ?thesis by blast
  qed
qed

lemma path_weight_unit:
  assumes "\<forall>(a, b, w) \<in> set es. w = 1"
  shows "path_weight es (a # r) = Num x \<Longrightarrow> x = int (length r)"
proof (induction r arbitrary: a x)
  case Nil
  then show ?case by simp
next
  case (Cons b r)
  from Cons.prems obtain w y where w: "pair_weight es a b = Num w"
    and y: "path_weight es (b # r) = Num y" and x: "x = w + y"
    by (cases "pair_weight es a b"; cases "path_weight es (b # r)") auto
  from pair_weight_cases[of es a b] w have "(a, b, w) \<in> set es" by auto
  with assms have "w = 1" by auto
  with Cons.IH[OF y] x show ?case by simp
qed

text \<open>
  C5. On a graph without negative cycles, when the Floyd-Warshall distance from \<open>u\<close> to
  \<open>v\<close> is finite, \<^verbatim>\<open>reconstruct_path\<close> returns a path that starts at \<open>u\<close>, ends at
  \<open>v\<close> and whose weight, summed over its consecutive pairs (each pair weighed by its
  lightest edge), is that distance; with unit weights the distance is its number of edges.
\<close>

theorem reconstruct_path_weight:
  assumes "wf_graph vertices edges" and "\<not> neg_cycle edges"
    and "floyd_warshall vertices edges = Inr (dist, pos, next_node)"
    and "pos u = Some i" and "pos v = Some j" and "dist ! i ! j \<noteq> Infty"
  shows "\<exists>p. reconstruct_path u v vertices pos next_node = Some (Inr p) \<and>
             p \<noteq> [] \<and> hd p = u \<and> last p = v \<and>
             path_weight edges p = dist ! i ! j \<and>
             ((\<forall>(a, b, w) \<in> set edges. w = 1) \<longrightarrow>
                dist ! i ! j = Num (int (length p) - 1))"
proof -
  from assms(1) have dv: "distinct vertices" by (simp add: wf_graph_def)
  from assms(3) have pos: "pos = mk_pos vertices" by (rule floyd_warshall_run)
  from mk_pos_Some[of vertices u i] mk_pos_Some[of vertices v j] assms(4,5)
  have i: "i < length vertices" "vertices ! i = u"
    and j: "j < length vertices" "vertices ! j = v"
    by (simp_all add: pos)
  from floyd_warshall_fw_inv[OF dv assms(2,3)] obtain h
    where diag: "fw_diag (length vertices) dist"
      and nxt: "fw_next vertices edges (length vertices) h (dist, next_node)"
    by (auto simp: fw_inv_def)
  from walk_fw[OF dv assms(3) diag nxt j(1) i(1) assms(6)] i(2) j(2) obtain q
    where q: "\<And>path. walk pos next_node v u path = Some (Inr (path @ q))"
      and lastq: "last (u # q) = v" and wq: "path_weight edges (u # q) = dist ! i ! j"
    by auto
  from floyd_warshall_inv[OF assms(3)] i(1) j(1) assms(6)
  obtain x where "next_node ! i ! j = Some x"
    by (auto simp: next_iff_finite_def)
  with next_at_fw[OF assms(3,4,5)] q[of "[u]"]
  have run: "reconstruct_path u v vertices pos next_node = Some (Inr (u # q))"
    by (simp add: reconstruct_path_def)
  have unit: "dist ! i ! j = Num (int (length (u # q)) - 1)" if "\<forall>(a, b, w) \<in> set edges. w = 1"
  proof -
    from assms(6) obtain x where x: "dist ! i ! j = Num x" by (cases "dist ! i ! j") auto
    with path_weight_unit[OF that, of u q x] wq show ?thesis by simp
  qed
  from run lastq wq unit
  have "reconstruct_path u v vertices pos next_node = Some (Inr (u # q)) \<and>
             u # q \<noteq> [] \<and> hd (u # q) = u \<and> last (u # q) = v \<and>
             path_weight edges (u # q) = dist ! i ! j \<and>
             ((\<forall>(a, b, w) \<in> set edges. w = 1) \<longrightarrow>
                dist ! i ! j = Num (int (length (u # q)) - 1))"
    by simp
  then show ?thesis by (rule exI)
qed

theorem reconstruct_path_weight_witness:
  "wf_graph [''A'', ''B'', ''C'']
     [(''A'', ''B'', 1), (''B'', ''A'', 1), (''B'', ''C'', 2), (''C'', ''B'', 2),
      (''A'', ''C'', 4), (''C'', ''A'', 4)] \<and>
   \<not> neg_cycle [(''A'', ''B'', 1), (''B'', ''A'', 1), (''B'', ''C'', 2), (''C'', ''B'', 2),
      (''A'', ''C'', 4), (''C'', ''A'', 4 :: int)] \<and>
   floyd_warshall [''A'', ''B'', ''C'']
     [(''A'', ''B'', 1), (''B'', ''A'', 1), (''B'', ''C'', 2), (''C'', ''B'', 2),
      (''A'', ''C'', 4), (''C'', ''A'', 4)]
   = Inr ([[Num 0, Num 1, Num 3], [Num 1, Num 0, Num 2], [Num 3, Num 2, Num 0]],
          mk_pos [''A'', ''B'', ''C''],
          [[Some ''A'', Some ''B'', Some ''B''],
           [Some ''A'', Some ''B'', Some ''C''],
           [Some ''B'', Some ''B'', Some ''C'']]) \<and>
   mk_pos [''A'', ''B'', ''C''] ''A'' = Some 0 \<and> mk_pos [''A'', ''B'', ''C''] ''C'' = Some 2 \<and>
   [[Num 0, Num 1, Num 3], [Num 1, Num 0, Num 2], [Num 3, Num 2, Num 0]] ! 0 ! 2 \<noteq> Infty \<and>
   reconstruct_path ''A'' ''C'' [''A'', ''B'', ''C''] (mk_pos [''A'', ''B'', ''C''])
          [[Some ''A'', Some ''B'', Some ''B''],
           [Some ''A'', Some ''B'', Some ''C''],
           [Some ''B'', Some ''B'', Some ''C'']] = Some (Inr [''A'', ''B'', ''C'']) \<and>
   path_weight [(''A'', ''B'', 1), (''B'', ''A'', 1), (''B'', ''C'', 2), (''C'', ''B'', 2),
      (''A'', ''C'', 4), (''C'', ''A'', 4)] [''A'', ''B'', ''C''] = Num 3"
proof -
  let ?vs = "[''A'', ''B'', ''C'']"
  let ?es = "[(''A'', ''B'', 1), (''B'', ''A'', 1), (''B'', ''C'', 2), (''C'', ''B'', 2),
              (''A'', ''C'', 4), (''C'', ''A'', 4)] :: string edge list"
  let ?d = "[[Num 0, Num 1, Num 3], [Num 1, Num 0, Num 2], [Num 3, Num 2, Num 0]]"
  let ?nx = "[[Some ''A'', Some ''B'', Some ''B''],
           [Some ''A'', Some ''B'', Some ''C''],
           [Some ''B'', Some ''B'', Some ''C'']]"
  have w: "wf_graph ?vs ?es" by (simp add: wf_graph_def endpoints_def)
  have n: "\<not> neg_cycle ?es" by (rule nonneg_no_neg_cycle) simp
  have fin: "?d ! 0 ! 2 \<noteq> Infty" by simp
  have run: "reconstruct_path ''A'' ''C'' ?vs (mk_pos ?vs) ?nx = Some (Inr [''A'', ''B'', ''C''])"
    by (simp add: reconstruct_path_def next_at_def pos3 walk.simps)
  have pw: "path_weight ?es [''A'', ''B'', ''C''] = Num 3"
    using reconstruct_path_weight[OF w n fw_run3, OF pos3(1) pos3(3) fin, unfolded run]
    by (elim exE conjE) simp
  from w n fw_run3 pos3(1) pos3(3) fin run pw show ?thesis by (intro conjI)
qed

end
